theory Spec2Isabelle
  imports Main
begin

section \<open>Constants of main.go\<close>

text \<open>
  Go's \<open>int\<close> is modelled as the unbounded \<open>int\<close> of HOL: block heights, the window
  size and the counts of the histogram stay many orders of magnitude below the limits of
  a machine word. The retarget loop counts up to the first multiple of the interval that
  is not below the height, and its result is at most the height plus the interval
  (\<open>GetNextBlockRetarget_bound\<close>).
\<close>

definition BLOCK_RETARGET_INTERVAL :: int where
  "BLOCK_RETARGET_INTERVAL = 2016"

definition BLOCK_BIP9_INTERVAL :: int where
  "BLOCK_BIP9_INTERVAL = 2016 * 4"

section \<open>The node behind the RPC interface\<close>

text \<open>
  \<open>SendRPCRequest\<close> talks HTTP and JSON to a node. The node is modelled by the answers it
  gives to the three requests the program sends: \<open>getinfo\<close> (of which only the field
  \<open>blocks\<close> is read), \<open>getblockhash\<close> and \<open>getblock\<close> (of which only the field
  \<open>version\<close> is read). An answer is \<open>Inl err\<close> when \<open>SendRPCRequest\<close> returns an error and
  \<open>Inr\<close> of the decoded field otherwise; the type assertions on a well-formed answer
  succeed, and the version arrives as the integer that \<open>int(version)\<close> yields. The block
  hash is opaque to the program (it is only handed back to the node), so its type is a
  parameter.
\<close>

datatype rpc_error = RPCError string

record 'hash node =
  getinfo_blocks :: "rpc_error + int"
  getblockhash :: "int \<Rightarrow> rpc_error + 'hash"
  getblock_version :: "'hash \<Rightarrow> rpc_error + int"

text \<open>A Go result pair \<open>(value, err)\<close> is a pair whose second component is \<open>None\<close> for \<open>nil\<close>.\<close>

definition GetBlockHeight :: "'hash node \<Rightarrow> int \<times> rpc_error option" where
  "GetBlockHeight nd =
     (case getinfo_blocks nd of
        Inl err \<Rightarrow> (0, Some err)
      | Inr block \<Rightarrow> (block, None))"

definition GetBlockCollated :: "'hash node \<Rightarrow> int \<Rightarrow> int \<times> rpc_error option" where
  "GetBlockCollated nd block =
     (case getblockhash nd block of
        Inl err \<Rightarrow> (0, Some err)
      | Inr blockHash \<Rightarrow>
          (case getblock_version nd blockHash of
             Inl err \<Rightarrow> (0, Some err)
           | Inr version \<Rightarrow> (version, None)))"

section \<open>GetNextBlockRetarget\<close>

text \<open>
  The loop \<open>for i := 0; i < blockNum; i += BLOCK_RETARGET_INTERVAL { iterations++ }\<close>,
  with the loop variable and the counter as arguments; it returns the counter.
\<close>

function retarget_loop :: "int \<Rightarrow> int \<Rightarrow> int \<Rightarrow> int" where
  "retarget_loop blockNum i iterations =
     (if i < blockNum
      then retarget_loop blockNum (i + BLOCK_RETARGET_INTERVAL) (iterations + 1)
      else iterations)"
  by pat_completeness auto
termination
  by (relation "measure (\<lambda>(blockNum, i, iterations). nat (blockNum - i))")
     (auto simp: BLOCK_RETARGET_INTERVAL_def)

declare retarget_loop.simps [simp del]

definition GetNextBlockRetarget :: "int \<Rightarrow> int" where
  "GetNextBlockRetarget blockNum =
     (let iterations = retarget_loop blockNum 0 0;
          iterations' = (if iterations * BLOCK_RETARGET_INTERVAL = blockNum
                         then iterations + 1 else iterations)
      in iterations' * BLOCK_RETARGET_INTERVAL)"

section \<open>The rolling tally of main\<close>

text \<open>
  The histogram \<open>blockIndex\<close> is a Go \<open>map[int]int\<close>: a finite map from version to count.
  Reading a key that is absent yields 0, and \<open>blockIndex[v] += 1\<close> stores the old
  reading plus one, creating the key when it is absent; a key whose count returns to 0
  stays in the map.
\<close>

definition count_of :: "(int \<rightharpoonup> int) \<Rightarrow> int \<Rightarrow> int" where
  "count_of m v = (case m v of None \<Rightarrow> 0 | Some c \<Rightarrow> c)"

definition incr :: "(int \<rightharpoonup> int) \<Rightarrow> int \<Rightarrow> (int \<rightharpoonup> int)" where
  "incr m v = m(v \<mapsto> count_of m v + 1)"

definition decr :: "(int \<rightharpoonup> int) \<Rightarrow> int \<Rightarrow> (int \<rightharpoonup> int)" where
  "decr m v = m(v \<mapsto> count_of m v - 1)"

text \<open>
  \<open>PrintBlockSummary\<close> adds up the counts of all keys of the map (\<open>totalBlocks\<close>); the
  order in which Go ranges over the keys does not matter for the sum.
\<close>

definition totalBlocks :: "(int \<rightharpoonup> int) \<Rightarrow> int" where
  "totalBlocks m = (\<Sum>v\<in>dom m. count_of m v)"

text \<open>
  What the program does besides updating its variables is recorded as a trace: each call of
  \<open>GetBlockCollated\<close> (\<open>Fetch\<close>), the per-height log lines of the three loops
  (\<open>log.Println(blockStart)\<close>, \<open>"Adding %d."\<close>, \<open>"Removing %d."\<close>), the error printed by
  \<open>log.Println(err)\<close> and the one-second sleep of an idle poll. The remaining log lines
  (heights, the retarget height, the summary) only print values and are left out.
\<close>

datatype event =
    Scanning int
  | Fetch int
  | LogError rpc_error
  | Adding int
  | Removing int
  | Sleep

record state =
  currentHeight :: int
  blockIndex :: "int \<rightharpoonup> int"
  trace :: "event list"

text \<open>
  \<open>log.Fatal\<close> prints the error and exits the process. \<open>Fatal err s\<close> is that exit, with the
  variables as they are at that moment; \<open>Continue s\<close> is normal completion.
\<close>

datatype result = Fatal rpc_error state | Continue state

fun succeeded :: "result \<Rightarrow> bool" where
  "succeeded (Continue s) = True"
| "succeeded (Fatal err s) = False"

fun final_state :: "result \<Rightarrow> state" where
  "final_state (Continue s) = s"
| "final_state (Fatal err s) = s"

text \<open>
  The initial scan, lines 193 to 200:
  \<open>for ; blockStart <= currentHeight; blockStart++\<close>. A failed fetch is printed and the
  loop body goes on with the value \<open>GetBlockCollated\<close> returned.
\<close>

function scan_loop :: "'hash node \<Rightarrow> int \<Rightarrow> state \<Rightarrow> state" where
  "scan_loop nd blockStart s =
     (if blockStart \<le> currentHeight s then
        (case GetBlockCollated nd blockStart of
           (blockVersion, err) \<Rightarrow>
             scan_loop nd (blockStart + 1)
               (s\<lparr>blockIndex := incr (blockIndex s) blockVersion,
                  trace := trace s @ [Scanning blockStart, Fetch blockStart] @
                    (case err of None \<Rightarrow> [] | Some e \<Rightarrow> [LogError e])\<rparr>))
      else s)"
  by pat_completeness auto
termination
  by (relation "measure (\<lambda>(nd, blockStart, s). nat (currentHeight s + 1 - blockStart))") auto

declare scan_loop.simps [simp del]

text \<open>The first loop of a poll, lines 214 to 222: \<open>for i := newHeight; i > currentHeight; i--\<close>.\<close>

function add_loop :: "'hash node \<Rightarrow> int \<Rightarrow> state \<Rightarrow> result" where
  "add_loop nd i s =
     (if i > currentHeight s then
        (case GetBlockCollated nd i of
           (blockVer, Some err) \<Rightarrow>
             Fatal err (s\<lparr>trace := trace s @ [Adding i, Fetch i]\<rparr>)
         | (blockVer, None) \<Rightarrow>
             add_loop nd (i - 1)
               (s\<lparr>blockIndex := incr (blockIndex s) blockVer,
                  trace := trace s @ [Adding i, Fetch i]\<rparr>))
      else Continue s)"
  by pat_completeness auto
termination
  by (relation "measure (\<lambda>(nd, i, s). nat (i - currentHeight s))") auto

declare add_loop.simps [simp del]

text \<open>
  The second loop of a poll, lines 224 to 231:
  \<open>for i := newHeight - interval; i < (newHeight-interval)+diff; i++\<close>; the upper bound
  is the argument \<open>bound\<close>.
\<close>

function remove_loop :: "'hash node \<Rightarrow> int \<Rightarrow> int \<Rightarrow> state \<Rightarrow> result" where
  "remove_loop nd bound i s =
     (if i < bound then
        (case GetBlockCollated nd i of
           (blockVer, Some err) \<Rightarrow>
             Fatal err (s\<lparr>trace := trace s @ [Removing i, Fetch i]\<rparr>)
         | (blockVer, None) \<Rightarrow>
             remove_loop nd bound (i + 1)
               (s\<lparr>blockIndex := decr (blockIndex s) blockVer,
                  trace := trace s @ [Removing i, Fetch i]\<rparr>))
      else Continue s)"
  by pat_completeness auto
termination
  by (relation "measure (\<lambda>(nd, bound, i, s). nat (bound - i))") auto

declare remove_loop.simps [simp del]

text \<open>
  The start of \<open>main\<close>, lines 182 to 200: read the height, start from an empty map and
  scan the window of \<open>interval\<close> blocks that ends at the height. \<open>initial_scan\<close> is the part
  after the height is known.
\<close>

definition initial_scan :: "'hash node \<Rightarrow> int \<Rightarrow> int \<Rightarrow> state" where
  "initial_scan nd interval height =
     scan_loop nd (height - interval + 1)
       \<lparr>currentHeight = height, blockIndex = Map.empty, trace = []\<rparr>"

definition startup :: "'hash node \<Rightarrow> int \<Rightarrow> result" where
  "startup nd interval =
     (case GetBlockHeight nd of
        (height, Some err) \<Rightarrow>
          Fatal err \<lparr>currentHeight = height, blockIndex = Map.empty, trace = []\<rparr>
      | (height, None) \<Rightarrow> Continue (initial_scan nd interval height))"

text \<open>
  One round of the endless loop, lines 205 to 236. \<open>advance\<close> is the part after the new
  height is known (lines 210 to 236); \<open>poll\<close> reads the height first.
\<close>

definition advance :: "'hash node \<Rightarrow> int \<Rightarrow> int \<Rightarrow> state \<Rightarrow> result" where
  "advance nd interval newHeight s =
     (if newHeight \<noteq> currentHeight s then
        (let diff = newHeight - currentHeight s in
         case add_loop nd newHeight s of
           Fatal err s1 \<Rightarrow> Fatal err s1
         | Continue s1 \<Rightarrow>
             (case remove_loop nd ((newHeight - interval) + diff) (newHeight - interval) s1 of
                Fatal err s2 \<Rightarrow> Fatal err s2
              | Continue s2 \<Rightarrow> Continue (s2\<lparr>currentHeight := newHeight\<rparr>)))
      else Continue (s\<lparr>trace := trace s @ [Sleep]\<rparr>))"

definition poll :: "'hash node \<Rightarrow> int \<Rightarrow> state \<Rightarrow> result" where
  "poll nd interval s =
     (case GetBlockHeight nd of
        (newHeight, Some err) \<Rightarrow> Fatal err s
      | (newHeight, None) \<Rightarrow> advance nd interval newHeight s)"

text \<open>
  The endless loop never returns; \<open>poll_loop\<close> runs the rounds for a finite list of
  node snapshots, one per round, and stops at a fatal error. \<open>run\<close> is the program with
  the window size as a parameter, \<open>main\<close> the program with the window size it has.
\<close>

fun poll_loop :: "int \<Rightarrow> 'hash node list \<Rightarrow> state \<Rightarrow> result" where
  "poll_loop interval [] s = Continue s"
| "poll_loop interval (nd # nds) s =
     (case poll nd interval s of
        Fatal err s' \<Rightarrow> Fatal err s'
      | Continue s' \<Rightarrow> poll_loop interval nds s')"

definition run :: "int \<Rightarrow> 'hash node \<Rightarrow> 'hash node list \<Rightarrow> result" where
  "run interval nd nds =
     (case startup nd interval of
        Fatal err s \<Rightarrow> Fatal err s
      | Continue s \<Rightarrow> poll_loop interval nds s)"

definition main :: "'hash node \<Rightarrow> 'hash node list \<Rightarrow> result" where
  "main nd nds = run BLOCK_BIP9_INTERVAL nd nds"

section \<open>Observations used in the statements\<close>

text \<open>
  \<open>tally nd lo hi v\<close> is the number of heights from \<open>lo\<close> to \<open>hi\<close> for which
  \<open>GetBlockCollated\<close> returns the value \<open>v\<close>; \<open>fetch_ok\<close> says that it returns no error.
\<close>

definition tally :: "'hash node \<Rightarrow> int \<Rightarrow> int \<Rightarrow> int \<Rightarrow> int" where
  "tally nd lo hi v = (\<Sum>h\<in>{lo..hi}. if fst (GetBlockCollated nd h) = v then 1 else 0)"

definition fetch_ok :: "'hash node \<Rightarrow> int \<Rightarrow> bool" where
  "fetch_ok nd h = (snd (GetBlockCollated nd h) = None)"

text \<open>The heights the trace reports as scanned, added, removed and fetched, in order.\<close>

fun scanned_heights :: "event list \<Rightarrow> int list" where
  "scanned_heights [] = []"
| "scanned_heights (Scanning h # t) = h # scanned_heights t"
| "scanned_heights (e # t) = scanned_heights t"

fun added_heights :: "event list \<Rightarrow> int list" where
  "added_heights [] = []"
| "added_heights (Adding h # t) = h # added_heights t"
| "added_heights (e # t) = added_heights t"

fun removed_heights :: "event list \<Rightarrow> int list" where
  "removed_heights [] = []"
| "removed_heights (Removing h # t) = h # removed_heights t"
| "removed_heights (e # t) = removed_heights t"

fun fetched_heights :: "event list \<Rightarrow> int list" where
  "fetched_heights [] = []"
| "fetched_heights (Fetch h # t) = h # fetched_heights t"
| "fetched_heights (e # t) = fetched_heights t"

text \<open>The events of one round of each loop, when the round completes.\<close>

definition scan_events :: "'hash node \<Rightarrow> int \<Rightarrow> event list" where
  "scan_events nd h =
     [Scanning h, Fetch h] @
     (case snd (GetBlockCollated nd h) of None \<Rightarrow> [] | Some e \<Rightarrow> [LogError e])"

definition add_events :: "int \<Rightarrow> event list" where
  "add_events h = [Adding h, Fetch h]"

definition remove_events :: "int \<Rightarrow> event list" where
  "remove_events h = [Removing h, Fetch h]"

text \<open>
  Example nodes: a chain on which the block at height \<open>h\<close> has the version \<open>version h\<close>
  and (as its hash) the height itself, whose tip is at \<open>height\<close>, and which fails the
  request for the hash of every height in \<open>bad\<close>.
\<close>

definition chain :: "(int \<Rightarrow> int) \<Rightarrow> (int \<Rightarrow> bool) \<Rightarrow> int \<Rightarrow> int node" where
  "chain version bad height =
     \<lparr>getinfo_blocks = Inr height,
      getblockhash = (\<lambda>block. if bad block then Inl (RPCError ''not found'') else Inr block),
      getblock_version = (\<lambda>hash. Inr (version hash))\<rparr>"

definition healthy :: "int \<Rightarrow> bool" where
  "healthy h = False"

definition only :: "int \<Rightarrow> int \<Rightarrow> bool" where
  "only a h = (h = a)"

text \<open>A version function with one exception: \<open>x\<close> at height \<open>a\<close> and \<open>y\<close> elsewhere.\<close>

definition spike :: "int \<Rightarrow> int \<Rightarrow> int \<Rightarrow> int \<Rightarrow> int" where
  "spike a x y h = (if h = a then x else y)"

text \<open>
  The versions of the worked scenarios: heights 10 to 13 carry the versions 1, 1, 2, 1,
  and heights 14, 15, 16 the versions 2, 2, 1.
\<close>

definition scenario_version :: "int \<Rightarrow> int" where
  "scenario_version h = (if h \<in> {12, 14, 15} then 2 else 1)"

section \<open>The retarget calculator\<close>

lemma div_2016_window:
  fixes i n :: int
  assumes "i mod 2016 = 0" and "n \<le> i" and "i \<le> n + 2015"
  shows "(n + 2015) div 2016 = i div 2016"
proof -
  obtain q where q: "i = 2016 * q"
    using assms(1) by (auto simp: mod_eq_0_iff_dvd)
  define r where "r = n + 2015 - i"
  have r: "0 \<le> r" "r < 2016"
    using assms(2,3) by (simp_all add: r_def)
  have "n + 2015 = r + 2016 * q"
    by (simp add: r_def q)
  then have "(n + 2015) div 2016 = (r + 2016 * q) div 2016"
    by simp
  also have "\<dots> = q + r div 2016"
    by (rule div_mult_self2) simp
  also have "r div 2016 = 0"
    using r by (simp add: div_pos_pos_trivial)
  finally show ?thesis
    by (simp add: q)
qed

lemma retarget_loop_eq:
  "0 \<le> i \<Longrightarrow> i mod 2016 = 0 \<Longrightarrow> i \<le> blockNum + 2015 \<Longrightarrow>
   retarget_loop blockNum i iterations = iterations + (blockNum + 2015) div 2016 - i div 2016"
proof (induction blockNum i iterations rule: retarget_loop.induct)
  case (1 blockNum i iterations)
  show ?case
  proof (cases "i < blockNum")
    case True
    have step: "retarget_loop blockNum i iterations =
        retarget_loop blockNum (i + 2016) (iterations + 1)"
      using True by (subst retarget_loop.simps) (simp add: BLOCK_RETARGET_INTERVAL_def)
    have "retarget_loop blockNum (i + BLOCK_RETARGET_INTERVAL) (iterations + 1) =
        iterations + 1 + (blockNum + 2015) div 2016 - (i + BLOCK_RETARGET_INTERVAL) div 2016"
      using True "1.prems" by (intro "1.IH") (simp_all add: BLOCK_RETARGET_INTERVAL_def)
    then show ?thesis
      using step by (simp add: BLOCK_RETARGET_INTERVAL_def)
  next
    case False
    have "retarget_loop blockNum i iterations = iterations"
      using False by (subst retarget_loop.simps) simp
    moreover have "(blockNum + 2015) div 2016 = i div 2016"
      using False "1.prems" by (intro div_2016_window) simp_all
    ultimately show ?thesis by simp
  qed
qed

lemma retarget_iterations:
  assumes "0 \<le> h"
  shows "retarget_loop h 0 0 = (h + 2015) div 2016"
  using retarget_loop_eq [of 0 h 0] assms by simp

lemma ceil_2016_multiple:
  fixes h :: int
  assumes "h mod 2016 = 0"
  shows "(h + 2015) div 2016 = h div 2016"
  using div_2016_window [of h h] assms by simp

lemma ceil_2016_other:
  fixes h :: int
  assumes "h mod 2016 \<noteq> 0"
  shows "(h + 2015) div 2016 = h div 2016 + 1"
proof -
  define r where "r = h mod 2016"
  define q where "q = h div 2016"
  have r: "1 \<le> r" "r < 2016"
    using assms pos_mod_sign [of 2016 h] pos_mod_bound [of 2016 h] by (simp_all add: r_def)
  have h: "h = r + 2016 * q"
    by (simp add: r_def q_def)
  have "h + 2015 = (r - 1) + 2016 * (q + 1)"
    by (simp add: h)
  then have "(h + 2015) div 2016 = ((r - 1) + 2016 * (q + 1)) div 2016"
    by simp
  also have "\<dots> = (q + 1) + (r - 1) div 2016"
    by (rule div_mult_self2) simp
  also have "(r - 1) div 2016 = 0"
    using r by (simp add: div_pos_pos_trivial)
  finally show ?thesis
    by (simp add: q_def)
qed

lemma GetNextBlockRetarget_formula:
  assumes "0 \<le> h"
  shows "GetNextBlockRetarget h = (h div 2016 + 1) * 2016"
proof (cases "h mod 2016 = 0")
  case True
  have "h div 2016 * 2016 = h"
    using True div_mult_mod_eq [of h 2016] by simp
  then show ?thesis
    using True assms
    by (simp add: GetNextBlockRetarget_def BLOCK_RETARGET_INTERVAL_def Let_def
        retarget_iterations ceil_2016_multiple)
next
  case False
  have "retarget_loop h 0 0 * 2016 \<noteq> h"
  proof
    assume "retarget_loop h 0 0 * 2016 = h"
    then have "h mod 2016 = (retarget_loop h 0 0 * 2016) mod 2016"
      by simp
    then show False
      using False by simp
  qed
  then show ?thesis
    using False assms
    by (simp add: GetNextBlockRetarget_def BLOCK_RETARGET_INTERVAL_def Let_def
        retarget_iterations ceil_2016_other)
qed

section \<open>The histogram as a map\<close>

lemma count_of_incr: "count_of (incr m v) k = count_of m k + (if k = v then 1 else 0)"
  by (simp add: incr_def count_of_def)

lemma count_of_decr: "count_of (decr m v) k = count_of m k - (if k = v then 1 else 0)"
  by (simp add: decr_def count_of_def)

lemma dom_incr: "dom (incr m v) = insert v (dom m)"
  by (simp add: incr_def)

lemma dom_decr: "dom (decr m v) = insert v (dom m)"
  by (simp add: decr_def)

lemma count_of_absent: "v \<notin> dom m \<Longrightarrow> count_of m v = 0"
  by (auto simp: count_of_def split: option.splits)

lemma totalBlocks_split:
  assumes "finite (dom m)"
  shows "totalBlocks m = count_of m v + (\<Sum>k\<in>dom m - {v}. count_of m k)"
proof (cases "v \<in> dom m")
  case True
  then show ?thesis
    using assms by (simp add: totalBlocks_def sum.remove)
next
  case False
  then show ?thesis
    by (simp add: totalBlocks_def count_of_absent)
qed

lemma totalBlocks_update:
  assumes "finite (dom m)"
  shows "totalBlocks (m(v \<mapsto> c)) = c + (\<Sum>k\<in>dom m - {v}. count_of m k)"
proof -
  have a: "totalBlocks (m(v \<mapsto> c)) = (\<Sum>k\<in>insert v (dom m - {v}). count_of (m(v \<mapsto> c)) k)"
    by (simp add: totalBlocks_def)
  have b: "(\<Sum>k\<in>insert v (dom m - {v}). count_of (m(v \<mapsto> c)) k) =
      count_of (m(v \<mapsto> c)) v + (\<Sum>k\<in>dom m - {v}. count_of (m(v \<mapsto> c)) k)"
    using assms by (subst sum.insert) simp_all
  have c: "(\<Sum>k\<in>dom m - {v}. count_of (m(v \<mapsto> c)) k) = (\<Sum>k\<in>dom m - {v}. count_of m k)"
    by (rule sum.cong) (simp_all add: count_of_def)
  have d: "count_of (m(v \<mapsto> c)) v = c"
    by (simp add: count_of_def)
  show ?thesis
    by (simp only: a b c d)
qed

lemma totalBlocks_incr: "finite (dom m) \<Longrightarrow> totalBlocks (incr m v) = totalBlocks m + 1"
  using totalBlocks_split [of m v] by (simp add: incr_def totalBlocks_update)

lemma totalBlocks_decr: "finite (dom m) \<Longrightarrow> totalBlocks (decr m v) = totalBlocks m - 1"
  using totalBlocks_split [of m v] by (simp add: decr_def totalBlocks_update)

lemma count_of_empty: "count_of Map.empty v = 0"
  by (simp add: count_of_def)

lemma totalBlocks_empty: "totalBlocks Map.empty = 0"
  by (simp add: totalBlocks_def)

section \<open>Counting over a range of heights\<close>

lemma tally_empty: "hi < lo \<Longrightarrow> tally nd lo hi v = 0"
  by (simp add: tally_def)

lemma tally_first:
  "lo \<le> hi \<Longrightarrow>
   tally nd lo hi v = (if fst (GetBlockCollated nd lo) = v then 1 else 0) + tally nd (lo + 1) hi v"
proof -
  assume le: "lo \<le> hi"
  have "{lo..hi} = insert lo {lo + 1..hi}"
    using le by auto
  then show ?thesis
    by (simp add: tally_def)
qed

lemma tally_last:
  "lo \<le> hi \<Longrightarrow>
   tally nd lo hi v = tally nd lo (hi - 1) v + (if fst (GetBlockCollated nd hi) = v then 1 else 0)"
proof -
  assume le: "lo \<le> hi"
  have "{lo..hi} = insert hi {lo..hi - 1}"
    using le by auto
  then show ?thesis
    by (simp add: tally_def)
qed

lemma tally_nonneg: "0 \<le> tally nd lo hi v"
  by (simp add: tally_def sum_nonneg)

lemma tally_append:
  assumes "lo \<le> mid + 1" and "mid \<le> hi"
  shows "tally nd lo hi v = tally nd lo mid v + tally nd (mid + 1) hi v"
proof -
  have "{lo..hi} = {lo..mid} \<union> {mid + 1..hi}"
    using assms by auto
  moreover have "{lo..mid} \<inter> {mid + 1..hi} = {}"
    by auto
  ultimately show ?thesis
    by (simp add: tally_def sum.union_disjoint)
qed

section \<open>The initial scan\<close>

lemma scan_loop_step:
  assumes "blockStart \<le> currentHeight s" and "GetBlockCollated nd blockStart = (v, err)"
  shows "scan_loop nd blockStart s =
     scan_loop nd (blockStart + 1)
       (s\<lparr>blockIndex := incr (blockIndex s) v,
          trace := trace s @ [Scanning blockStart, Fetch blockStart] @
            (case err of None \<Rightarrow> [] | Some e \<Rightarrow> [LogError e])\<rparr>)"
  using assms by (subst scan_loop.simps) simp

lemma scan_loop_done: "\<not> blockStart \<le> currentHeight s \<Longrightarrow> scan_loop nd blockStart s = s"
  by (subst scan_loop.simps) simp

lemma scan_loop_currentHeight: "currentHeight (scan_loop nd blockStart s) = currentHeight s"
proof (induction nd blockStart s rule: scan_loop.induct)
  case (1 nd blockStart s)
  show ?case
  proof (cases "blockStart \<le> currentHeight s")
    case True
    obtain v err where g: "GetBlockCollated nd blockStart = (v, err)"
      by (cases "GetBlockCollated nd blockStart")
    show ?thesis
      using "1.IH" [OF True g [symmetric]] by (simp add: scan_loop_step [OF True g])
  next
    case False
    then show ?thesis by (simp add: scan_loop_done)
  qed
qed

lemma scan_loop_finite:
  "finite (dom (blockIndex s)) \<Longrightarrow> finite (dom (blockIndex (scan_loop nd blockStart s)))"
proof (induction nd blockStart s rule: scan_loop.induct)
  case (1 nd blockStart s)
  show ?case
  proof (cases "blockStart \<le> currentHeight s")
    case True
    obtain v err where g: "GetBlockCollated nd blockStart = (v, err)"
      by (cases "GetBlockCollated nd blockStart")
    show ?thesis
      using "1.IH" [OF True g [symmetric]] "1.prems"
      by (simp add: scan_loop_step [OF True g] dom_incr)
  next
    case False
    then show ?thesis using "1.prems" by (simp add: scan_loop_done)
  qed
qed

lemma scan_loop_count:
  "count_of (blockIndex (scan_loop nd blockStart s)) k =
   count_of (blockIndex s) k + tally nd blockStart (currentHeight s) k"
proof (induction nd blockStart s rule: scan_loop.induct)
  case (1 nd blockStart s)
  show ?case
  proof (cases "blockStart \<le> currentHeight s")
    case True
    obtain v err where g: "GetBlockCollated nd blockStart = (v, err)"
      by (cases "GetBlockCollated nd blockStart")
    show ?thesis
      using "1.IH" [OF True g [symmetric]]
      by (simp add: scan_loop_step [OF True g] count_of_incr tally_first [OF True] g)
  next
    case False
    then show ?thesis by (simp add: scan_loop_done tally_empty)
  qed
qed

lemma scan_loop_total:
  "finite (dom (blockIndex s)) \<Longrightarrow>
   totalBlocks (blockIndex (scan_loop nd blockStart s)) =
   totalBlocks (blockIndex s) + max 0 (currentHeight s + 1 - blockStart)"
proof (induction nd blockStart s rule: scan_loop.induct)
  case (1 nd blockStart s)
  show ?case
  proof (cases "blockStart \<le> currentHeight s")
    case True
    obtain v err where g: "GetBlockCollated nd blockStart = (v, err)"
      by (cases "GetBlockCollated nd blockStart")
    show ?thesis
      using "1.IH" [OF True g [symmetric]] "1.prems" True
      by (simp add: scan_loop_step [OF True g] dom_incr totalBlocks_incr)
  next
    case False
    then show ?thesis by (simp add: scan_loop_done)
  qed
qed

lemma scan_loop_trace:
  "trace (scan_loop nd blockStart s) =
   trace s @ concat (map (scan_events nd) [blockStart..currentHeight s])"
proof (induction nd blockStart s rule: scan_loop.induct)
  case (1 nd blockStart s)
  show ?case
  proof (cases "blockStart \<le> currentHeight s")
    case True
    obtain v err where g: "GetBlockCollated nd blockStart = (v, err)"
      by (cases "GetBlockCollated nd blockStart")
    have u: "[blockStart..currentHeight s] = blockStart # [blockStart + 1..currentHeight s]"
      using True by (rule upto_rec1)
    show ?thesis
      using "1.IH" [OF True g [symmetric]]
      by (simp add: scan_loop_step [OF True g] u scan_events_def g)
  next
    case False
    then show ?thesis by (simp add: scan_loop_done)
  qed
qed

section \<open>The two loops of a poll\<close>

lemma add_loop_step:
  assumes "i > currentHeight s" and "GetBlockCollated nd i = (v, None)"
  shows "add_loop nd i s =
     add_loop nd (i - 1)
       (s\<lparr>blockIndex := incr (blockIndex s) v, trace := trace s @ [Adding i, Fetch i]\<rparr>)"
  using assms by (subst add_loop.simps) simp

lemma add_loop_fatal:
  assumes "i > currentHeight s" and "GetBlockCollated nd i = (v, Some err)"
  shows "add_loop nd i s = Fatal err (s\<lparr>trace := trace s @ [Adding i, Fetch i]\<rparr>)"
  using assms by (subst add_loop.simps) simp

lemma add_loop_done: "\<not> i > currentHeight s \<Longrightarrow> add_loop nd i s = Continue s"
  by (subst add_loop.simps) simp

lemma add_loop_Continue:
  "add_loop nd i s = Continue s' \<Longrightarrow>
   currentHeight s' = currentHeight s \<and>
   (\<forall>k. count_of (blockIndex s') k =
        count_of (blockIndex s) k + tally nd (currentHeight s + 1) i k) \<and>
   (finite (dom (blockIndex s)) \<longrightarrow>
      finite (dom (blockIndex s')) \<and>
      totalBlocks (blockIndex s') = totalBlocks (blockIndex s) + max 0 (i - currentHeight s)) \<and>
   trace s' = trace s @ concat (map add_events (rev [currentHeight s + 1..i]))"
proof (induction nd i s rule: add_loop.induct)
  case (1 nd i s)
  show ?case
  proof (cases "i > currentHeight s")
    case True
    obtain v err where g: "GetBlockCollated nd i = (v, err)"
      by (cases "GetBlockCollated nd i")
    show ?thesis
    proof (cases err)
      case None
      let ?s1 = "s\<lparr>blockIndex := incr (blockIndex s) v, trace := trace s @ [Adding i, Fetch i]\<rparr>"
      have step: "add_loop nd i s = add_loop nd (i - 1) ?s1"
        using True g None by (simp add: add_loop_step)
      have IH: "currentHeight s' = currentHeight ?s1 \<and>
          (\<forall>k. count_of (blockIndex s') k =
             count_of (blockIndex ?s1) k + tally nd (currentHeight ?s1 + 1) (i - 1) k) \<and>
          (finite (dom (blockIndex ?s1)) \<longrightarrow>
             finite (dom (blockIndex s')) \<and>
             totalBlocks (blockIndex s') =
               totalBlocks (blockIndex ?s1) + max 0 (i - 1 - currentHeight ?s1)) \<and>
          trace s' = trace ?s1 @ concat (map add_events (rev [currentHeight ?s1 + 1..i - 1]))"
        using "1.IH" [OF True g [symmetric] None] "1.prems" step by simp
      have le: "currentHeight s + 1 \<le> i"
        using True by simp
      have u: "[currentHeight s + 1..i] = [currentHeight s + 1..i - 1] @ [i]"
        using le by (rule upto_rec2)
      have t: "concat (map add_events (rev [currentHeight s + 1..i])) =
          [Adding i, Fetch i] @ concat (map add_events (rev [currentHeight s + 1..i - 1]))"
        unfolding u by (simp add: add_events_def)
      show ?thesis
        using IH True
        by (simp add: count_of_incr tally_last [OF le] g dom_incr totalBlocks_incr t)
    next
      case (Some e)
      then show ?thesis
        using "1.prems" True g by (simp add: add_loop_fatal)
    qed
  next
    case False
    then have "s' = s"
      using "1.prems" by (simp add: add_loop_done)
    then show ?thesis
      using False by (simp add: tally_empty)
  qed
qed

lemma add_loop_Fatal:
  "add_loop nd i s = Fatal err s' \<Longrightarrow> currentHeight s' = currentHeight s"
proof (induction nd i s rule: add_loop.induct)
  case (1 nd i s)
  show ?case
  proof (cases "i > currentHeight s")
    case True
    obtain v e where g: "GetBlockCollated nd i = (v, e)"
      by (cases "GetBlockCollated nd i")
    show ?thesis
    proof (cases e)
      case None
      show ?thesis
        using "1.IH" [OF True g [symmetric] None] "1.prems" True g None
        by (simp add: add_loop_step)
    next
      case (Some e')
      then show ?thesis
        using "1.prems" True g by (auto simp: add_loop_fatal)
    qed
  next
    case False
    then show ?thesis
      using "1.prems" by (simp add: add_loop_done)
  qed
qed

lemma add_loop_succeeded:
  "succeeded (add_loop nd i s) \<longleftrightarrow> (\<forall>h. currentHeight s < h \<and> h \<le> i \<longrightarrow> fetch_ok nd h)"
proof (induction nd i s rule: add_loop.induct)
  case (1 nd i s)
  show ?case
  proof (cases "i > currentHeight s")
    case True
    obtain v e where g: "GetBlockCollated nd i = (v, e)"
      by (cases "GetBlockCollated nd i")
    show ?thesis
    proof (cases e)
      case None
      have ok: "fetch_ok nd i"
        using g None by (simp add: fetch_ok_def)
      have "(\<forall>h. currentHeight s < h \<and> h \<le> i \<longrightarrow> fetch_ok nd h) \<longleftrightarrow>
          (\<forall>h. currentHeight s < h \<and> h \<le> i - 1 \<longrightarrow> fetch_ok nd h)"
      proof
        assume a: "\<forall>h. currentHeight s < h \<and> h \<le> i - 1 \<longrightarrow> fetch_ok nd h"
        show "\<forall>h. currentHeight s < h \<and> h \<le> i \<longrightarrow> fetch_ok nd h"
        proof (intro allI impI)
          fix h assume h: "currentHeight s < h \<and> h \<le> i"
          show "fetch_ok nd h"
          proof (cases "h = i")
            case True
            then show ?thesis using ok by simp
          next
            case False
            then have "h \<le> i - 1" using h by simp
            then show ?thesis using a h by simp
          qed
        qed
      qed simp
      then show ?thesis
        using "1.IH" [OF True g [symmetric] None] True g None
        by (simp add: add_loop_step)
    next
      case (Some e')
      have "\<not> fetch_ok nd i"
        using g Some by (simp add: fetch_ok_def)
      then have "\<not> (\<forall>h. currentHeight s < h \<and> h \<le> i \<longrightarrow> fetch_ok nd h)"
        using True by auto
      then show ?thesis
        using True g Some by (simp add: add_loop_fatal)
    qed
  next
    case False
    then show ?thesis
      by (auto simp: add_loop_done)
  qed
qed

lemma remove_loop_step:
  assumes "i < bound" and "GetBlockCollated nd i = (v, None)"
  shows "remove_loop nd bound i s =
     remove_loop nd bound (i + 1)
       (s\<lparr>blockIndex := decr (blockIndex s) v, trace := trace s @ [Removing i, Fetch i]\<rparr>)"
  using assms by (subst remove_loop.simps) simp

lemma remove_loop_fatal:
  assumes "i < bound" and "GetBlockCollated nd i = (v, Some err)"
  shows "remove_loop nd bound i s = Fatal err (s\<lparr>trace := trace s @ [Removing i, Fetch i]\<rparr>)"
  using assms by (subst remove_loop.simps) simp

lemma remove_loop_done: "\<not> i < bound \<Longrightarrow> remove_loop nd bound i s = Continue s"
  by (subst remove_loop.simps) simp

lemma remove_loop_Continue:
  "remove_loop nd bound i s = Continue s' \<Longrightarrow>
   currentHeight s' = currentHeight s \<and>
   (\<forall>k. count_of (blockIndex s') k = count_of (blockIndex s) k - tally nd i (bound - 1) k) \<and>
   (finite (dom (blockIndex s)) \<longrightarrow>
      finite (dom (blockIndex s')) \<and>
      totalBlocks (blockIndex s') = totalBlocks (blockIndex s) - max 0 (bound - i)) \<and>
   trace s' = trace s @ concat (map remove_events [i..bound - 1])"
proof (induction nd bound i s rule: remove_loop.induct)
  case (1 nd bound i s)
  show ?case
  proof (cases "i < bound")
    case True
    obtain v err where g: "GetBlockCollated nd i = (v, err)"
      by (cases "GetBlockCollated nd i")
    show ?thesis
    proof (cases err)
      case None
      let ?s1 = "s\<lparr>blockIndex := decr (blockIndex s) v, trace := trace s @ [Removing i, Fetch i]\<rparr>"
      have step: "remove_loop nd bound i s = remove_loop nd bound (i + 1) ?s1"
        using True g None by (simp add: remove_loop_step)
      have IH: "currentHeight s' = currentHeight ?s1 \<and>
          (\<forall>k. count_of (blockIndex s') k =
             count_of (blockIndex ?s1) k - tally nd (i + 1) (bound - 1) k) \<and>
          (finite (dom (blockIndex ?s1)) \<longrightarrow>
             finite (dom (blockIndex s')) \<and>
             totalBlocks (blockIndex s') = totalBlocks (blockIndex ?s1) - max 0 (bound - (i + 1))) \<and>
          trace s' = trace ?s1 @ concat (map remove_events [i + 1..bound - 1])"
        using "1.IH" [OF True g [symmetric] None] "1.prems" step by simp
      have le: "i \<le> bound - 1"
        using True by simp
      have u: "[i..bound - 1] = i # [i + 1..bound - 1]"
        using le by (rule upto_rec1)
      have t: "concat (map remove_events [i..bound - 1]) =
          [Removing i, Fetch i] @ concat (map remove_events [i + 1..bound - 1])"
        unfolding u by (simp add: remove_events_def)
      show ?thesis
        using IH True
        by (simp add: count_of_decr tally_first [OF le] g dom_decr totalBlocks_decr t)
    next
      case (Some e)
      then show ?thesis
        using "1.prems" True g by (simp add: remove_loop_fatal)
    qed
  next
    case False
    then have "s' = s"
      using "1.prems" by (simp add: remove_loop_done)
    then show ?thesis
      using False by (simp add: tally_empty)
  qed
qed

lemma remove_loop_Fatal:
  "remove_loop nd bound i s = Fatal err s' \<Longrightarrow> currentHeight s' = currentHeight s"
proof (induction nd bound i s rule: remove_loop.induct)
  case (1 nd bound i s)
  show ?case
  proof (cases "i < bound")
    case True
    obtain v e where g: "GetBlockCollated nd i = (v, e)"
      by (cases "GetBlockCollated nd i")
    show ?thesis
    proof (cases e)
      case None
      show ?thesis
        using "1.IH" [OF True g [symmetric] None] "1.prems" True g None
        by (simp add: remove_loop_step)
    next
      case (Some e')
      then show ?thesis
        using "1.prems" True g by (auto simp: remove_loop_fatal)
    qed
  next
    case False
    then show ?thesis
      using "1.prems" by (simp add: remove_loop_done)
  qed
qed

lemma remove_loop_succeeded:
  "succeeded (remove_loop nd bound i s) \<longleftrightarrow> (\<forall>h. i \<le> h \<and> h < bound \<longrightarrow> fetch_ok nd h)"
proof (induction nd bound i s rule: remove_loop.induct)
  case (1 nd bound i s)
  show ?case
  proof (cases "i < bound")
    case True
    obtain v e where g: "GetBlockCollated nd i = (v, e)"
      by (cases "GetBlockCollated nd i")
    show ?thesis
    proof (cases e)
      case None
      have ok: "fetch_ok nd i"
        using g None by (simp add: fetch_ok_def)
      have "(\<forall>h. i \<le> h \<and> h < bound \<longrightarrow> fetch_ok nd h) \<longleftrightarrow>
          (\<forall>h. i + 1 \<le> h \<and> h < bound \<longrightarrow> fetch_ok nd h)"
      proof
        assume a: "\<forall>h. i + 1 \<le> h \<and> h < bound \<longrightarrow> fetch_ok nd h"
        show "\<forall>h. i \<le> h \<and> h < bound \<longrightarrow> fetch_ok nd h"
        proof (intro allI impI)
          fix h assume h: "i \<le> h \<and> h < bound"
          show "fetch_ok nd h"
          proof (cases "h = i")
            case True
            then show ?thesis using ok by simp
          next
            case False
            then have "i + 1 \<le> h" using h by simp
            then show ?thesis using a h by simp
          qed
        qed
      qed simp
      then show ?thesis
        using "1.IH" [OF True g [symmetric] None] True g None
        by (simp add: remove_loop_step)
    next
      case (Some e')
      have "\<not> fetch_ok nd i"
        using g Some by (simp add: fetch_ok_def)
      then have "\<not> (\<forall>h. i \<le> h \<and> h < bound \<longrightarrow> fetch_ok nd h)"
        using True by auto
      then show ?thesis
        using True g Some by (simp add: remove_loop_fatal)
    qed
  next
    case False
    then show ?thesis
      by (auto simp: remove_loop_done)
  qed
qed

section \<open>One poll\<close>

lemma advance_idle:
  "advance nd interval (currentHeight s) s = Continue (s\<lparr>trace := trace s @ [Sleep]\<rparr>)"
  by (simp add: advance_def)

lemma advance_Continue:
  assumes "advance nd interval newHeight s = Continue s'"
  shows "currentHeight s' = newHeight"
    and "count_of (blockIndex s') k =
      count_of (blockIndex s) k + tally nd (currentHeight s + 1) newHeight k
      - tally nd (newHeight - interval) (newHeight - interval + (newHeight - currentHeight s) - 1) k"
    and "finite (dom (blockIndex s)) \<Longrightarrow> finite (dom (blockIndex s'))"
    and "finite (dom (blockIndex s)) \<Longrightarrow> totalBlocks (blockIndex s') = totalBlocks (blockIndex s)"
proof -
  show "currentHeight s' = newHeight"
    using assms by (auto simp: advance_def Let_def split: if_splits result.splits)
  show "count_of (blockIndex s') k =
      count_of (blockIndex s) k + tally nd (currentHeight s + 1) newHeight k
      - tally nd (newHeight - interval) (newHeight - interval + (newHeight - currentHeight s) - 1) k"
  proof (cases "newHeight = currentHeight s")
    case True
    then show ?thesis
      using assms by (auto simp: advance_def tally_empty)
  next
    case False
    then obtain s1 s2 where a: "add_loop nd newHeight s = Continue s1"
      and r: "remove_loop nd (newHeight - interval + (newHeight - currentHeight s))
                (newHeight - interval) s1 = Continue s2"
      and e: "s' = s2\<lparr>currentHeight := newHeight\<rparr>"
      using assms by (auto simp: advance_def Let_def split: result.splits)
    show ?thesis
      using add_loop_Continue [OF a] remove_loop_Continue [OF r] e by simp
  qed
  assume fin: "finite (dom (blockIndex s))"
  show "finite (dom (blockIndex s'))"
  proof (cases "newHeight = currentHeight s")
    case True
    then show ?thesis
      using assms fin by (auto simp: advance_def)
  next
    case False
    then obtain s1 s2 where a: "add_loop nd newHeight s = Continue s1"
      and r: "remove_loop nd (newHeight - interval + (newHeight - currentHeight s))
                (newHeight - interval) s1 = Continue s2"
      and e: "s' = s2\<lparr>currentHeight := newHeight\<rparr>"
      using assms by (auto simp: advance_def Let_def split: result.splits)
    show ?thesis
      using add_loop_Continue [OF a] remove_loop_Continue [OF r] e fin by simp
  qed
  show "totalBlocks (blockIndex s') = totalBlocks (blockIndex s)"
  proof (cases "newHeight = currentHeight s")
    case True
    then show ?thesis
      using assms by (auto simp: advance_def)
  next
    case False
    then obtain s1 s2 where a: "add_loop nd newHeight s = Continue s1"
      and r: "remove_loop nd (newHeight - interval + (newHeight - currentHeight s))
                (newHeight - interval) s1 = Continue s2"
      and e: "s' = s2\<lparr>currentHeight := newHeight\<rparr>"
      using assms by (auto simp: advance_def Let_def split: result.splits)
    show ?thesis
      using add_loop_Continue [OF a] remove_loop_Continue [OF r] e fin by simp
  qed
qed

lemma advance_Fatal:
  assumes "advance nd interval newHeight s = Fatal err s'"
  shows "currentHeight s' = currentHeight s"
proof -
  have ne: "newHeight \<noteq> currentHeight s"
    using assms by (auto simp: advance_def)
  show ?thesis
  proof (cases "add_loop nd newHeight s")
    case (Fatal e s1)
    then have "s' = s1"
      using assms ne by (simp add: advance_def Let_def)
    then show ?thesis
      using add_loop_Fatal [OF Fatal] by simp
  next
    case (Continue s1)
    then have r: "remove_loop nd (newHeight - interval + (newHeight - currentHeight s))
        (newHeight - interval) s1 = Fatal err s'"
      using assms ne by (auto simp: advance_def Let_def split: result.splits)
    show ?thesis
      using remove_loop_Fatal [OF r] add_loop_Continue [OF Continue] by simp
  qed
qed

lemma succeeded_iff: "succeeded r \<longleftrightarrow> r = Continue (final_state r)"
  by (cases r) simp_all

lemma advance_succeeded:
  "succeeded (advance nd interval newHeight s) \<longleftrightarrow>
   (\<forall>h. currentHeight s < h \<and> h \<le> newHeight \<longrightarrow> fetch_ok nd h) \<and>
   (\<forall>h. newHeight - interval \<le> h \<and>
        h < newHeight - interval + (newHeight - currentHeight s) \<longrightarrow> fetch_ok nd h)"
proof (cases "newHeight = currentHeight s")
  case True
  then show ?thesis
    by (auto simp: advance_def)
next
  case False
  show ?thesis
  proof (cases "add_loop nd newHeight s")
    case (Fatal e s1)
    then have "\<not> succeeded (add_loop nd newHeight s)"
      by simp
    then have n: "\<not> (\<forall>h. currentHeight s < h \<and> h \<le> newHeight \<longrightarrow> fetch_ok nd h)"
      by (simp add: add_loop_succeeded)
    have l: "\<not> succeeded (advance nd interval newHeight s)"
      using False Fatal by (simp add: advance_def Let_def)
    show ?thesis
      using l n by blast
  next
    case (Continue s1)
    then have "succeeded (add_loop nd newHeight s)"
      by simp
    then have a: "\<forall>h. currentHeight s < h \<and> h \<le> newHeight \<longrightarrow> fetch_ok nd h"
      by (simp only: add_loop_succeeded)
    have "succeeded (advance nd interval newHeight s) \<longleftrightarrow>
        succeeded (remove_loop nd (newHeight - interval + (newHeight - currentHeight s))
          (newHeight - interval) s1)"
      using False Continue by (auto simp: advance_def Let_def split: result.splits)
    then show ?thesis
      using a by (simp only: remove_loop_succeeded) simp
  qed
qed

lemma advance_trace:
  assumes "advance nd interval newHeight s = Continue s'" and "newHeight \<noteq> currentHeight s"
  shows "trace s' = trace s @ concat (map add_events (rev [currentHeight s + 1..newHeight])) @
     concat (map remove_events
       [newHeight - interval..newHeight - interval + (newHeight - currentHeight s) - 1])"
proof -
  obtain s1 s2 where a: "add_loop nd newHeight s = Continue s1"
    and r: "remove_loop nd (newHeight - interval + (newHeight - currentHeight s))
              (newHeight - interval) s1 = Continue s2"
    and e: "s' = s2\<lparr>currentHeight := newHeight\<rparr>"
    using assms by (auto simp: advance_def Let_def split: result.splits)
  show ?thesis
    using add_loop_Continue [OF a] remove_loop_Continue [OF r] e by simp
qed

section \<open>Reading the trace\<close>

lemma scanned_heights_append:
  "scanned_heights (t @ u) = scanned_heights t @ scanned_heights u"
  by (induction t rule: scanned_heights.induct) simp_all

lemma added_heights_append:
  "added_heights (t @ u) = added_heights t @ added_heights u"
  by (induction t rule: added_heights.induct) simp_all

lemma removed_heights_append:
  "removed_heights (t @ u) = removed_heights t @ removed_heights u"
  by (induction t rule: removed_heights.induct) simp_all

lemma fetched_heights_append:
  "fetched_heights (t @ u) = fetched_heights t @ fetched_heights u"
  by (induction t rule: fetched_heights.induct) simp_all

lemma scan_events_heights:
  "scanned_heights (concat (map (scan_events nd) hs)) = hs"
  "fetched_heights (concat (map (scan_events nd) hs)) = hs"
  "added_heights (concat (map (scan_events nd) hs)) = []"
  "removed_heights (concat (map (scan_events nd) hs)) = []"
  by (induction hs)
     (simp_all add: scan_events_def scanned_heights_append fetched_heights_append
        added_heights_append removed_heights_append split: option.splits)

lemma add_events_heights:
  "scanned_heights (concat (map add_events hs)) = []"
  "fetched_heights (concat (map add_events hs)) = hs"
  "added_heights (concat (map add_events hs)) = hs"
  "removed_heights (concat (map add_events hs)) = []"
  by (induction hs) (simp_all add: add_events_def)

lemma remove_events_heights:
  "scanned_heights (concat (map remove_events hs)) = []"
  "fetched_heights (concat (map remove_events hs)) = hs"
  "added_heights (concat (map remove_events hs)) = []"
  "removed_heights (concat (map remove_events hs)) = hs"
  by (induction hs) (simp_all add: remove_events_def)

lemma scan_events_error:
  "h \<in> set hs \<Longrightarrow> snd (GetBlockCollated nd h) = Some err \<Longrightarrow>
   LogError err \<in> set (concat (map (scan_events nd) hs))"
  by (induction hs) (auto simp: scan_events_def)

section \<open>The whole program\<close>

lemma initial_scan_currentHeight: "currentHeight (initial_scan nd interval height) = height"
  by (simp add: initial_scan_def scan_loop_currentHeight)

lemma initial_scan_count:
  "count_of (blockIndex (initial_scan nd interval height)) k =
   tally nd (height - interval + 1) height k"
  by (simp add: initial_scan_def scan_loop_count count_of_empty)

lemma initial_scan_finite: "finite (dom (blockIndex (initial_scan nd interval height)))"
  by (simp add: initial_scan_def scan_loop_finite)

lemma initial_scan_total:
  "0 \<le> interval \<Longrightarrow> totalBlocks (blockIndex (initial_scan nd interval height)) = interval"
  by (simp add: initial_scan_def scan_loop_total totalBlocks_empty)

lemma initial_scan_trace:
  "trace (initial_scan nd interval height) =
   concat (map (scan_events nd) [height - interval + 1..height])"
  by (simp add: initial_scan_def scan_loop_trace)

lemma startup_Continue:
  "startup nd interval = Continue s \<Longrightarrow>
   \<exists>height. getinfo_blocks nd = Inr height \<and> s = initial_scan nd interval height"
  by (auto simp: startup_def GetBlockHeight_def split: sum.splits)

lemma poll_Continue:
  "poll nd interval s = Continue s' \<Longrightarrow>
   \<exists>newHeight. getinfo_blocks nd = Inr newHeight \<and> advance nd interval newHeight s = Continue s'"
  by (auto simp: poll_def GetBlockHeight_def split: sum.splits)

lemma poll_loop_total:
  "poll_loop interval nds s = Continue s' \<Longrightarrow> finite (dom (blockIndex s)) \<Longrightarrow>
   finite (dom (blockIndex s')) \<and> totalBlocks (blockIndex s') = totalBlocks (blockIndex s)"
proof (induction nds arbitrary: s)
  case Nil
  then show ?case by simp
next
  case (Cons nd nds)
  from Cons.prems(1) obtain s1 where p: "poll nd interval s = Continue s1"
    and l: "poll_loop interval nds s1 = Continue s'"
    by (auto split: result.splits)
  from poll_Continue [OF p] obtain newHeight where
    a: "advance nd interval newHeight s = Continue s1"
    by blast
  have "finite (dom (blockIndex s1))" "totalBlocks (blockIndex s1) = totalBlocks (blockIndex s)"
    using advance_Continue(3,4) [OF a] Cons.prems(2) by simp_all
  then show ?case
    using Cons.IH [OF l] by simp
qed

lemma run_total:
  assumes "0 \<le> interval" and "run interval nd nds = Continue s"
  shows "totalBlocks (blockIndex s) = interval"
proof -
  from assms(2) obtain s0 where st: "startup nd interval = Continue s0"
    and l: "poll_loop interval nds s0 = Continue s"
    by (auto simp: run_def split: result.splits)
  from startup_Continue [OF st] obtain height where s0: "s0 = initial_scan nd interval height"
    by blast
  show ?thesis
    using poll_loop_total [OF l] assms(1) by (simp add: s0 initial_scan_finite initial_scan_total)
qed

lemma main_total:
  assumes "main nd nds = Continue s"
  shows "totalBlocks (blockIndex s) = BLOCK_BIP9_INTERVAL"
proof -
  have "0 \<le> BLOCK_BIP9_INTERVAL"
    by (simp add: BLOCK_BIP9_INTERVAL_def)
  then show ?thesis
    using assms unfolding main_def by (rule run_total)
qed

section \<open>Claims about the retarget calculator\<close>

lemma next_boundary_above:
  fixes h :: int
  shows "h < (h div 2016 + 1) * 2016"
  using div_mult_mod_eq [of h 2016] pos_mod_bound [of 2016 h] by (simp add: algebra_simps)

lemma next_boundary_least:
  fixes h m :: int
  assumes "2016 dvd m" and "h < m"
  shows "(h div 2016 + 1) * 2016 \<le> m"
proof -
  obtain k where k: "m = 2016 * k"
    using assms(1) by (auto simp: dvd_def)
  have "h div 2016 * 2016 \<le> h"
    using div_mult_mod_eq [of h 2016] pos_mod_sign [of 2016 h] by simp
  then have "h div 2016 * 2016 < k * 2016"
    using assms(2) k by simp
  then have "h div 2016 < k"
    by simp
  then have "h div 2016 + 1 \<le> k"
    by simp
  then have "(h div 2016 + 1) * 2016 \<le> k * 2016"
    by (rule mult_right_mono) simp
  then show ?thesis
    by (simp add: k)
qed

lemma GetNextBlockRetarget_bound:
  assumes "0 \<le> h"
  shows "h < GetNextBlockRetarget h \<and> GetNextBlockRetarget h \<le> h + 2016"
proof -
  have "h div 2016 * 2016 \<le> h"
    using div_mult_mod_eq [of h 2016] pos_mod_sign [of 2016 h] by simp
  then show ?thesis
    using next_boundary_above [of h] assms
    by (simp add: GetNextBlockRetarget_formula algebra_simps)
qed

text \<open>
  C4. For every non-negative height \<open>h\<close>, \<open>GetNextBlockRetarget h\<close> is
  \<open>(h div 2016 + 1) * 2016\<close>: a multiple of the retarget interval that is strictly
  greater than \<open>h\<close> and the smallest such multiple, so that a height that is itself a
  multiple is sent to the next one. In particular 2016 is sent to 4032, 2015 to 2016 and
  0 to 2016.
\<close>

theorem GetNextBlockRetarget_next_boundary:
  assumes "0 \<le> h"
  shows "GetNextBlockRetarget h =
           (h div BLOCK_RETARGET_INTERVAL + 1) * BLOCK_RETARGET_INTERVAL \<and>
         BLOCK_RETARGET_INTERVAL dvd GetNextBlockRetarget h \<and>
         h < GetNextBlockRetarget h \<and>
         (\<forall>m. BLOCK_RETARGET_INTERVAL dvd m \<and> h < m \<longrightarrow> GetNextBlockRetarget h \<le> m) \<and>
         GetNextBlockRetarget 2016 = 4032 \<and>
         GetNextBlockRetarget 2015 = 2016 \<and>
         GetNextBlockRetarget 0 = 2016"
proof -
  have f: "GetNextBlockRetarget h = (h div 2016 + 1) * 2016"
    using assms by (rule GetNextBlockRetarget_formula)
  have d: "2016 dvd GetNextBlockRetarget h"
    by (simp add: f)
  have g: "h < GetNextBlockRetarget h"
    by (simp only: f next_boundary_above)
  have l: "\<forall>m. 2016 dvd m \<and> h < m \<longrightarrow> GetNextBlockRetarget h \<le> m"
    by (simp only: f) (blast intro: next_boundary_least)
  have v1: "GetNextBlockRetarget 2016 = 4032"
    by (simp add: GetNextBlockRetarget_formula)
  have v2: "GetNextBlockRetarget 2015 = 2016"
    by (simp add: GetNextBlockRetarget_formula)
  have v3: "GetNextBlockRetarget 0 = 2016"
    by (simp add: GetNextBlockRetarget_formula)
  show ?thesis
    using f d g l v1 v2 v3 by (simp add: BLOCK_RETARGET_INTERVAL_def)
qed

theorem GetNextBlockRetarget_next_boundary_witness:
  "(0::int) \<le> 10000 \<and> GetNextBlockRetarget 10000 = 10080 \<and>
   BLOCK_RETARGET_INTERVAL dvd GetNextBlockRetarget 10000 \<and>
   10000 < GetNextBlockRetarget 10000"
proof -
  have h: "(0::int) \<le> 10000"
    by simp
  show ?thesis
    using GetNextBlockRetarget_next_boundary [OF h] by (simp add: BLOCK_RETARGET_INTERVAL_def)
qed

section \<open>The example nodes\<close>

lemma GetBlockCollated_chain:
  "GetBlockCollated (chain version bad height) h =
     (if bad h then (0, Some (RPCError ''not found'')) else (version h, None))"
  by (simp add: GetBlockCollated_def chain_def)

lemma GetBlockHeight_chain: "GetBlockHeight (chain version bad height) = (height, None)"
  by (simp add: GetBlockHeight_def chain_def)

lemma fetch_ok_chain: "fetch_ok (chain version bad height) h \<longleftrightarrow> \<not> bad h"
  by (simp add: fetch_ok_def GetBlockCollated_chain)

lemma poll_chain:
  "poll (chain version bad height) interval s = advance (chain version bad height) interval height s"
  by (simp add: poll_def GetBlockHeight_chain)

lemma startup_chain:
  "startup (chain version bad height) interval =
     Continue (initial_scan (chain version bad height) interval height)"
  by (simp add: startup_def GetBlockHeight_chain)

lemma tally_spike:
  assumes "x \<noteq> y"
  shows "tally (chain (spike a x y) healthy height) lo hi x = (if lo \<le> a \<and> a \<le> hi then 1 else 0)"
proof -
  have "tally (chain (spike a x y) healthy height) lo hi x =
      (\<Sum>h\<in>{lo..hi}. if h = a then 1 else 0)"
    unfolding tally_def
    by (rule sum.cong) (simp_all add: GetBlockCollated_chain healthy_def spike_def assms [symmetric])
  then show ?thesis
    by simp
qed

lemma tally_bad:
  assumes "c \<noteq> 0"
  shows "tally (chain (\<lambda>h. c) (only a) height) lo hi 0 = (if lo \<le> a \<and> a \<le> hi then 1 else 0)"
proof -
  have "tally (chain (\<lambda>h. c) (only a) height) lo hi 0 =
      (\<Sum>h\<in>{lo..hi}. if h = a then 1 else 0)"
    unfolding tally_def
    by (rule sum.cong) (simp_all add: GetBlockCollated_chain only_def assms)
  then show ?thesis
    by simp
qed

lemmas run_simps =
  run_def startup_def poll_def advance_def initial_scan_def GetBlockHeight_def
  GetBlockCollated_def chain_def healthy_def only_def spike_def scenario_version_def
  scan_loop.simps add_loop.simps remove_loop.simps incr_def decr_def count_of_def Let_def

section \<open>Claims about the sum of the histogram\<close>

text \<open>
  C2. After the initial scan and any number of successful polls, whatever heights the
  polls report, the counts of the histogram add up to the window size. The window size is
  not negative (in \<open>main\<close> it is \<open>BLOCK_BIP9_INTERVAL\<close>).
\<close>

theorem histogram_sum_is_window_size:
  assumes "0 \<le> interval" and "run interval nd nds = Continue s"
  shows "totalBlocks (blockIndex s) = interval"
  using assms by (rule run_total)

theorem histogram_sum_is_window_size_witness:
  "(0::int) \<le> 4 \<and>
   run 4 (chain scenario_version healthy 13) [chain scenario_version healthy 14] =
     Continue (final_state
       (run 4 (chain scenario_version healthy 13) [chain scenario_version healthy 14])) \<and>
   totalBlocks (blockIndex (final_state
       (run 4 (chain scenario_version healthy 13) [chain scenario_version healthy 14]))) = 4"
proof -
  have w: "(0::int) \<le> 4"
    by simp
  have ok: "succeeded (run 4 (chain scenario_version healthy 13) [chain scenario_version healthy 14])"
    by (simp add: run_simps)
  then have e: "run 4 (chain scenario_version healthy 13) [chain scenario_version healthy 14] =
      Continue (final_state
        (run 4 (chain scenario_version healthy 13) [chain scenario_version healthy 14]))"
    by (simp only: succeeded_iff [symmetric])
  show ?thesis
    using histogram_sum_is_window_size [OF w e] e by simp
qed

section \<open>Claims about a poll that brings no new block\<close>

text \<open>
  C9. When the new height equals the current height, the poll fetches no block and leaves
  the histogram and the current height as they are; it only sleeps.
\<close>

theorem advance_same_height_is_noop:
  "advance nd interval (currentHeight s) s = Continue (s\<lparr>trace := trace s @ [Sleep]\<rparr>) \<and>
   currentHeight (final_state (advance nd interval (currentHeight s) s)) = currentHeight s \<and>
   blockIndex (final_state (advance nd interval (currentHeight s) s)) = blockIndex s \<and>
   fetched_heights (trace (final_state (advance nd interval (currentHeight s) s))) =
     fetched_heights (trace s)"
  by (simp add: advance_idle fetched_heights_append)

section \<open>Claims about a poll that reports a lower height\<close>

lemma advance_backwards:
  assumes "newHeight < currentHeight s"
  shows "advance nd interval newHeight s = Continue (s\<lparr>currentHeight := newHeight\<rparr>)"
proof -
  have a: "add_loop nd newHeight s = Continue s"
    using assms by (simp add: add_loop_done)
  have r: "remove_loop nd (newHeight - interval + (newHeight - currentHeight s))
      (newHeight - interval) s = Continue s"
    using assms by (simp add: remove_loop_done)
  show ?thesis
    using assms a r by (simp add: advance_def Let_def)
qed

text \<open>
  C8, as the code has it. A poll that reports a height below the current one raises no
  error: both loops run zero times, so nothing is fetched and the histogram is unchanged,
  and the current height is set to the reported height.
\<close>

theorem advance_lower_height_accepted:
  assumes "newHeight < currentHeight s"
  shows "advance nd interval newHeight s = Continue (s\<lparr>currentHeight := newHeight\<rparr>) \<and>
         succeeded (advance nd interval newHeight s) \<and>
         blockIndex (final_state (advance nd interval newHeight s)) = blockIndex s \<and>
         trace (final_state (advance nd interval newHeight s)) = trace s \<and>
         currentHeight (final_state (advance nd interval newHeight s)) = newHeight"
  using assms by (simp add: advance_backwards)

theorem advance_lower_height_accepted_witness:
  "(12::int) < currentHeight (initial_scan (chain scenario_version healthy 13) 4 13) \<and>
   advance (chain scenario_version healthy 12) 4 12
       (initial_scan (chain scenario_version healthy 13) 4 13) =
     Continue ((initial_scan (chain scenario_version healthy 13) 4 13)\<lparr>currentHeight := 12\<rparr>)"
proof -
  have h: "(12::int) < currentHeight (initial_scan (chain scenario_version healthy 13) 4 13)"
    by (simp add: initial_scan_currentHeight)
  show ?thesis
    using advance_lower_height_accepted
      [where nd = "chain scenario_version healthy 12" and interval = 4, OF h] h
    by simp
qed

text \<open>
  C8, as the specification has it, fails: the program starts at height 8063 and the next
  poll reports height 8062. The poll succeeds and the current height becomes 8062.
\<close>

theorem advance_lower_height_counterexample:
  "currentHeight (final_state (main (chain (spike 0 2 1) healthy 8063) [])) = 8063 \<and>
   succeeded (main (chain (spike 0 2 1) healthy 8063) [chain (spike 0 2 1) healthy 8062]) \<and>
   currentHeight (final_state
     (main (chain (spike 0 2 1) healthy 8063) [chain (spike 0 2 1) healthy 8062])) = 8062"
  by (simp add: main_def run_def startup_chain poll_chain initial_scan_currentHeight
      advance_backwards)

section \<open>Claims about a failed fetch during the initial scan\<close>

lemma GetBlockCollated_error_value:
  "snd (GetBlockCollated nd h) = Some err \<Longrightarrow> fst (GetBlockCollated nd h) = 0"
  by (auto simp: GetBlockCollated_def split: sum.splits)

lemma tally_member:
  assumes "lo \<le> h" and "h \<le> hi" and "fst (GetBlockCollated nd h) = v"
  shows "1 \<le> tally nd lo hi v"
proof -
  have "tally nd lo hi v = tally nd lo (h - 1) v + tally nd h hi v"
    using assms(1,2) tally_append [of lo "h - 1" hi nd v] by simp
  also have "tally nd h hi v = 1 + tally nd (h + 1) hi v"
    using assms(2,3) by (simp add: tally_first)
  finally show ?thesis
    using tally_nonneg [of nd lo "h - 1" v] tally_nonneg [of nd "h + 1" hi v] by simp
qed

text \<open>
  C10. When the fetch for a height of the initial window fails, the scan goes on: the
  round for that height prints the error and increments the count of version 0, the value
  \<open>GetBlockCollated\<close> returns with an error. The scan still fetches every height of the
  window and completes, the failed height is among the heights counted under version 0,
  and the counts add up to the window size.
\<close>

theorem initial_scan_counts_failed_fetch_as_version_0:
  assumes "0 \<le> interval"
    and "height - interval + 1 \<le> h" and "h \<le> height"
    and "snd (GetBlockCollated nd h) = Some err"
    and "getinfo_blocks nd = Inr height"
  shows "fst (GetBlockCollated nd h) = 0 \<and>
         (\<forall>s. h \<le> currentHeight s \<longrightarrow>
            scan_loop nd h s =
              scan_loop nd (h + 1)
                (s\<lparr>blockIndex := incr (blockIndex s) 0,
                   trace := trace s @ [Scanning h, Fetch h, LogError err]\<rparr>)) \<and>
         startup nd interval = Continue (initial_scan nd interval height) \<and>
         LogError err \<in> set (trace (initial_scan nd interval height)) \<and>
         fetched_heights (trace (initial_scan nd interval height)) =
           [height - interval + 1..height] \<and>
         count_of (blockIndex (initial_scan nd interval height)) 0 =
           tally nd (height - interval + 1) height 0 \<and>
         1 \<le> tally nd (height - interval + 1) height 0 \<and>
         totalBlocks (blockIndex (initial_scan nd interval height)) = interval"
proof -
  have z: "fst (GetBlockCollated nd h) = 0"
    using assms(4) by (rule GetBlockCollated_error_value)
  have g: "GetBlockCollated nd h = (0, Some err)"
    using z assms(4) by (cases "GetBlockCollated nd h") simp
  have step: "\<forall>s. h \<le> currentHeight s \<longrightarrow>
      scan_loop nd h s =
        scan_loop nd (h + 1)
          (s\<lparr>blockIndex := incr (blockIndex s) 0,
             trace := trace s @ [Scanning h, Fetch h, LogError err]\<rparr>)"
    using scan_loop_step [OF _ g] by simp
  have start: "startup nd interval = Continue (initial_scan nd interval height)"
    using assms(5) by (simp add: startup_def GetBlockHeight_def)
  have "h \<in> set [height - interval + 1..height]"
    using assms(2,3) by simp
  then have logged: "LogError err \<in> set (trace (initial_scan nd interval height))"
    unfolding initial_scan_trace using assms(4) by (rule scan_events_error)
  have fetched: "fetched_heights (trace (initial_scan nd interval height)) =
      [height - interval + 1..height]"
    by (simp add: initial_scan_trace scan_events_heights)
  have counted: "1 \<le> tally nd (height - interval + 1) height 0"
    using assms(2,3) z by (rule tally_member)
  show ?thesis
    using z step start logged fetched counted assms(1)
    by (simp add: initial_scan_count initial_scan_total)
qed

theorem initial_scan_counts_failed_fetch_as_version_0_witness:
  "(0::int) \<le> 4 \<and> 13 - 4 + 1 \<le> (11::int) \<and> (11::int) \<le> 13 \<and>
   snd (GetBlockCollated (chain scenario_version (only 11) 13) 11) =
     Some (RPCError ''not found'') \<and>
   getinfo_blocks (chain scenario_version (only 11) 13) = Inr 13 \<and>
   startup (chain scenario_version (only 11) 13) 4 =
     Continue (initial_scan (chain scenario_version (only 11) 13) 4 13) \<and>
   LogError (RPCError ''not found'') \<in>
     set (trace (initial_scan (chain scenario_version (only 11) 13) 4 13)) \<and>
   fetched_heights (trace (initial_scan (chain scenario_version (only 11) 13) 4 13)) =
     [10, 11, 12, 13] \<and>
   count_of (blockIndex (initial_scan (chain scenario_version (only 11) 13) 4 13)) 0 = 1 \<and>
   count_of (blockIndex (initial_scan (chain scenario_version (only 11) 13) 4 13)) 1 = 2 \<and>
   count_of (blockIndex (initial_scan (chain scenario_version (only 11) 13) 4 13)) 2 = 1 \<and>
   totalBlocks (blockIndex (initial_scan (chain scenario_version (only 11) 13) 4 13)) = 4"
proof -
  have a: "(0::int) \<le> 4" and b: "13 - 4 + 1 \<le> (11::int)" and c: "(11::int) \<le> 13"
    by simp_all
  have d: "snd (GetBlockCollated (chain scenario_version (only 11) 13) 11) =
      Some (RPCError ''not found'')"
    by (simp add: GetBlockCollated_chain only_def)
  have e: "getinfo_blocks (chain scenario_version (only 11) 13) = Inr 13"
    by (simp add: chain_def)
  have f: "[13 - 4 + 1..13] = [10, 11, 12, (13::int)]"
    by (simp add: upto_rec1)
  have g: "count_of (blockIndex (initial_scan (chain scenario_version (only 11) 13) 4 13)) 0 = 1"
    "count_of (blockIndex (initial_scan (chain scenario_version (only 11) 13) 4 13)) 1 = 2"
    "count_of (blockIndex (initial_scan (chain scenario_version (only 11) 13) 4 13)) 2 = 1"
    by (simp_all add: run_simps)
  show ?thesis
    using initial_scan_counts_failed_fetch_as_version_0 [OF a b c d e] d e f g by simp
qed

lemma poll_loop_single: "poll_loop interval [nd] s = poll nd interval s"
  by (cases "poll nd interval s") simp_all

lemma main_start:
  "main (chain version bad height) [] =
     Continue (initial_scan (chain version bad height) BLOCK_BIP9_INTERVAL height)"
  by (simp add: main_def run_def startup_chain)

lemma main_one_poll:
  "main (chain version bad height) [nd] =
     poll nd BLOCK_BIP9_INTERVAL (initial_scan (chain version bad height) BLOCK_BIP9_INTERVAL height)"
  by (simp add: main_def run_def startup_chain poll_loop_single del: poll_loop.simps)

text \<open>
  C7 on the code: the node's tip is at height 8063, every block has version 1, and the
  request for the hash of height 5 fails. The initial scan of \<open>main\<close> does not fail: it
  completes with a histogram whose counts add up to the window size, in which height 5 is
  counted under version 0, and the error is only printed.
\<close>

theorem initial_scan_survives_failed_fetch:
  "succeeded (main (chain (\<lambda>h. 1) (only 5) 8063) []) \<and>
   count_of (blockIndex (final_state (main (chain (\<lambda>h. 1) (only 5) 8063) []))) 0 = 1 \<and>
   totalBlocks (blockIndex (final_state (main (chain (\<lambda>h. 1) (only 5) 8063) []))) =
     BLOCK_BIP9_INTERVAL \<and>
   LogError (RPCError ''not found'') \<in>
     set (trace (final_state (main (chain (\<lambda>h. 1) (only 5) 8063) [])))"
proof -
  have "(5::int) \<in> set [8063 - BLOCK_BIP9_INTERVAL + 1..8063]"
    by (simp add: BLOCK_BIP9_INTERVAL_def)
  moreover have "snd (GetBlockCollated (chain (\<lambda>h. 1) (only 5) 8063) 5) =
      Some (RPCError ''not found'')"
    by (simp add: GetBlockCollated_chain only_def)
  ultimately have "LogError (RPCError ''not found'') \<in>
      set (trace (initial_scan (chain (\<lambda>h. 1) (only 5) 8063) BLOCK_BIP9_INTERVAL 8063))"
    unfolding initial_scan_trace by (rule scan_events_error)
  moreover have "count_of (blockIndex
      (initial_scan (chain (\<lambda>h. 1) (only 5) 8063) BLOCK_BIP9_INTERVAL 8063)) 0 = 1"
    by (simp add: initial_scan_count tally_bad BLOCK_BIP9_INTERVAL_def)
  moreover have "totalBlocks (blockIndex
      (initial_scan (chain (\<lambda>h. 1) (only 5) 8063) BLOCK_BIP9_INTERVAL 8063)) = BLOCK_BIP9_INTERVAL"
    by (rule initial_scan_total) (simp add: BLOCK_BIP9_INTERVAL_def)
  ultimately show ?thesis
    by (simp add: main_start)
qed

section \<open>Claims about a failed fetch during a poll\<close>

text \<open>
  C6, as the code has it. When, in a poll that brings at least one new block, the fetch
  fails for one of the heights the poll adds or for one of the heights it visits for
  removal, the poll ends in \<open>log.Fatal\<close>: the program exits, so the rounds that would
  follow (a retry among them) never run. The current height is still the old one at that
  moment.
\<close>

theorem advance_fetch_failure_is_fatal:
  assumes "currentHeight s < newHeight"
    and "(currentHeight s < h \<and> h \<le> newHeight) \<or>
         (newHeight - interval \<le> h \<and>
          h < newHeight - interval + (newHeight - currentHeight s))"
    and "\<not> fetch_ok nd h"
    and "getinfo_blocks nd = Inr newHeight"
  shows "\<not> succeeded (advance nd interval newHeight s) \<and>
         currentHeight (final_state (advance nd interval newHeight s)) = currentHeight s \<and>
         poll_loop interval (nd # nds) s = advance nd interval newHeight s"
proof -
  have n: "\<not> succeeded (advance nd interval newHeight s)"
    using assms(2,3) by (auto simp: advance_succeeded)
  then obtain err s' where f: "advance nd interval newHeight s = Fatal err s'"
    by (cases "advance nd interval newHeight s") simp_all
  have p: "poll nd interval s = advance nd interval newHeight s"
    using assms(4) by (simp add: poll_def GetBlockHeight_def)
  show ?thesis
    using n advance_Fatal [OF f] f p by simp
qed

theorem advance_fetch_failure_is_fatal_witness:
  "currentHeight (initial_scan (chain scenario_version healthy 13) 4 13) < 15 \<and>
   \<not> fetch_ok (chain scenario_version (only 14) 15) 14 \<and>
   getinfo_blocks (chain scenario_version (only 14) 15) = Inr 15 \<and>
   \<not> succeeded (advance (chain scenario_version (only 14) 15) 4 15
        (initial_scan (chain scenario_version healthy 13) 4 13)) \<and>
   currentHeight (final_state (advance (chain scenario_version (only 14) 15) 4 15
        (initial_scan (chain scenario_version healthy 13) 4 13))) = 13 \<and>
   poll_loop 4 [chain scenario_version (only 14) 15, chain scenario_version healthy 15]
        (initial_scan (chain scenario_version healthy 13) 4 13) =
     advance (chain scenario_version (only 14) 15) 4 15
        (initial_scan (chain scenario_version healthy 13) 4 13)"
proof -
  let ?s = "initial_scan (chain scenario_version healthy 13) 4 13"
  let ?nd = "chain scenario_version (only 14) 15"
  have a: "currentHeight ?s < 15"
    by (simp add: initial_scan_currentHeight)
  have b: "(currentHeight ?s < 14 \<and> (14::int) \<le> 15) \<or>
      (15 - 4 \<le> (14::int) \<and> 14 < 15 - 4 + (15 - currentHeight ?s))"
    by (simp add: initial_scan_currentHeight)
  have c: "\<not> fetch_ok ?nd 14"
    by (simp add: fetch_ok_chain only_def)
  have d: "getinfo_blocks ?nd = Inr 15"
    by (simp add: chain_def)
  show ?thesis
    using advance_fetch_failure_is_fatal
      [where nds = "[chain scenario_version healthy 15]", OF a b c d] a c d
    by (simp add: initial_scan_currentHeight)
qed

text \<open>
  C6, as the specification has it, fails: the program starts at height 8063 on a chain of
  version 1 blocks, except that the block at height 8065 has version 2. The next poll
  reports height 8065, and the fetch for height 8064 fails. The poll has already counted
  height 8065 when it stops: the histogram at the exit holds one block of version 2, the
  histogram before the poll none.
\<close>

theorem advance_not_atomic_counterexample:
  "\<not> succeeded (main (chain (spike 8065 2 1) healthy 8063)
        [chain (spike 8065 2 1) (only 8064) 8065]) \<and>
   count_of (blockIndex (final_state (main (chain (spike 8065 2 1) healthy 8063) []))) 2 = 0 \<and>
   count_of (blockIndex (final_state (main (chain (spike 8065 2 1) healthy 8063)
        [chain (spike 8065 2 1) (only 8064) 8065]))) 2 = 1 \<and>
   blockIndex (final_state (main (chain (spike 8065 2 1) healthy 8063)
        [chain (spike 8065 2 1) (only 8064) 8065])) \<noteq>
   blockIndex (final_state (main (chain (spike 8065 2 1) healthy 8063) []))"
proof -
  let ?n0 = "chain (spike 8065 2 1) healthy 8063"
  let ?n1 = "chain (spike 8065 2 1) (only 8064) 8065"
  let ?s0 = "initial_scan ?n0 BLOCK_BIP9_INTERVAL 8063"
  let ?s1 = "?s0\<lparr>blockIndex := incr (blockIndex ?s0) 2,
                 trace := trace ?s0 @ [Adding 8065, Fetch 8065]\<rparr>"
  have c0: "count_of (blockIndex ?s0) 2 = 0"
    by (simp add: initial_scan_count tally_spike BLOCK_BIP9_INTERVAL_def)
  have g1: "GetBlockCollated ?n1 8065 = (2, None)"
    by (simp add: GetBlockCollated_chain only_def spike_def)
  have g2: "GetBlockCollated ?n1 8064 = (0, Some (RPCError ''not found''))"
    by (simp add: GetBlockCollated_chain only_def)
  have "add_loop ?n1 8065 ?s0 = add_loop ?n1 (8065 - 1) ?s1"
    by (rule add_loop_step [OF _ g1]) (simp add: initial_scan_currentHeight)
  also have "\<dots> = Fatal (RPCError ''not found'') (?s1\<lparr>trace := trace ?s1 @ [Adding 8064, Fetch 8064]\<rparr>)"
    using add_loop_fatal [of ?s1 8064 ?n1 0 "RPCError ''not found''"] g2
    by (simp add: initial_scan_currentHeight)
  finally have a: "add_loop ?n1 8065 ?s0 =
      Fatal (RPCError ''not found'') (?s1\<lparr>trace := trace ?s1 @ [Adding 8064, Fetch 8064]\<rparr>)" .
  have m: "main ?n0 [?n1] =
      Fatal (RPCError ''not found'') (?s1\<lparr>trace := trace ?s1 @ [Adding 8064, Fetch 8064]\<rparr>)"
    by (simp add: main_one_poll poll_chain advance_def a initial_scan_currentHeight)
  have c1: "count_of (blockIndex (final_state (main ?n0 [?n1]))) 2 = 1"
    by (simp add: m count_of_incr c0)
  have c0': "count_of (blockIndex (final_state (main ?n0 []))) 2 = 0"
    by (simp add: main_start c0)
  have "blockIndex (final_state (main ?n0 [?n1])) \<noteq> blockIndex (final_state (main ?n0 []))"
  proof
    assume "blockIndex (final_state (main ?n0 [?n1])) = blockIndex (final_state (main ?n0 []))"
    then have "count_of (blockIndex (final_state (main ?n0 [?n1]))) 2 =
        count_of (blockIndex (final_state (main ?n0 []))) 2"
      by simp
    then show False
      by (simp only: c1 c0')
  qed
  then show ?thesis
    using c1 c0' by (simp add: m)
qed

section \<open>Claims about the heights a poll adds and removes\<close>

lemma advance_healthy:
  "advance (chain version healthy height) interval newHeight s =
     Continue (final_state (advance (chain version healthy height) interval newHeight s))"
  by (simp add: succeeded_iff [symmetric] advance_succeeded fetch_ok_chain healthy_def)

lemma poll_loop_two:
  "poll_loop interval [chain version healthy height, nd] s =
     poll nd interval (final_state (advance (chain version healthy height) interval height s))"
proof -
  let ?s1 = "final_state (advance (chain version healthy height) interval height s)"
  have "poll (chain version healthy height) interval s = Continue ?s1"
    using advance_healthy [of version height interval height s] by (simp add: poll_chain)
  then have "poll_loop interval [chain version healthy height, nd] s = poll_loop interval [nd] ?s1"
    by simp
  also have "\<dots> = poll nd interval ?s1"
    by (rule poll_loop_single)
  finally show ?thesis .
qed

lemma advance_trace_heights:
  assumes "advance nd interval newHeight s = Continue s'"
  shows "scanned_heights (trace s') = scanned_heights (trace s)"
    and "added_heights (trace s') = added_heights (trace s) @ rev [currentHeight s + 1..newHeight]"
    and "removed_heights (trace s') = removed_heights (trace s) @
      [newHeight - interval..newHeight - interval + (newHeight - currentHeight s) - 1]"
proof -
  have t: "scanned_heights (trace s') = scanned_heights (trace s) \<and>
      added_heights (trace s') = added_heights (trace s) @ rev [currentHeight s + 1..newHeight] \<and>
      removed_heights (trace s') = removed_heights (trace s) @
        [newHeight - interval..newHeight - interval + (newHeight - currentHeight s) - 1]"
  proof (cases "newHeight = currentHeight s")
    case True
    then have "s' = s\<lparr>trace := trace s @ [Sleep]\<rparr>"
      using assms by (simp add: advance_def)
    then show ?thesis
      using True
      by (simp add: scanned_heights_append added_heights_append removed_heights_append)
  next
    case False
    show ?thesis
      by (simp add: advance_trace [OF assms False] scanned_heights_append added_heights_append
          removed_heights_append add_events_heights remove_events_heights)
  qed
  show "scanned_heights (trace s') = scanned_heights (trace s)"
    using t by simp
  show "added_heights (trace s') = added_heights (trace s) @ rev [currentHeight s + 1..newHeight]"
    using t by simp
  show "removed_heights (trace s') = removed_heights (trace s) @
      [newHeight - interval..newHeight - interval + (newHeight - currentHeight s) - 1]"
    using t by simp
qed

lemma initial_scan_heights:
  "scanned_heights (trace (initial_scan nd interval height)) = [height - interval + 1..height]"
  "added_heights (trace (initial_scan nd interval height)) = []"
  "removed_heights (trace (initial_scan nd interval height)) = []"
  by (simp_all add: initial_scan_trace scan_events_heights)

text \<open>
  A poll that brings exactly one new block removes the height that leaves the window, and
  its histogram agrees, count by count, with a fresh scan at the new height.
\<close>

lemma advance_one_block_matches_fresh_scan:
  assumes "0 \<le> interval"
    and "advance nd interval (height + 1) (initial_scan nd interval height) = Continue s'"
  shows "count_of (blockIndex s') k =
           count_of (blockIndex (initial_scan nd interval (height + 1))) k"
    and "removed_heights (trace s') = [height - interval + 1]"
proof -
  have a: "tally nd (height - interval + 1) (height + 1) k =
      tally nd (height - interval + 1) height k + tally nd (height + 1) (height + 1) k"
    using assms(1) by (intro tally_append) simp_all
  have b: "tally nd (height - interval + 1) (height + 1) k =
      tally nd (height - interval + 1) (height - interval + 1) k +
      tally nd (height - interval + 1 + 1) (height + 1) k"
    using assms(1) by (intro tally_append) simp_all
  have "count_of (blockIndex s') k =
      tally nd (height - interval + 1) height k + tally nd (height + 1) (height + 1) k -
      tally nd (height - interval + 1) (height - interval + 1) k"
    using advance_Continue(2) [OF assms(2), of k]
    by (simp add: initial_scan_currentHeight initial_scan_count algebra_simps)
  then show "count_of (blockIndex s') k =
      count_of (blockIndex (initial_scan nd interval (height + 1))) k"
    using a b by (simp add: initial_scan_count algebra_simps)
  show "removed_heights (trace s') = [height - interval + 1]"
    using advance_trace_heights(3) [OF assms(2)]
    by (simp add: initial_scan_heights initial_scan_currentHeight algebra_simps upto_rec1)
qed

text \<open>
  C1 on the code: the program starts at height 8063 on a chain whose block at height 0 has
  version 2 and whose other blocks have version 1; the next poll reports height 8065 (two
  new blocks). The poll removes the heights 1 and 2, not the heights 0 and 1 that leave the
  window, so the block of version 2 at height 0 stays counted; a fresh scan of the window
  that ends at 8065 counts no block of version 2.
\<close>

theorem advance_two_blocks_removes_wrong_heights:
  "succeeded (main (chain (spike 0 2 1) healthy 8063) [chain (spike 0 2 1) healthy 8065]) \<and>
   added_heights (trace (final_state
     (main (chain (spike 0 2 1) healthy 8063) [chain (spike 0 2 1) healthy 8065]))) =
     [8065, 8064] \<and>
   removed_heights (trace (final_state
     (main (chain (spike 0 2 1) healthy 8063) [chain (spike 0 2 1) healthy 8065]))) =
     [1, 2] \<and>
   count_of (blockIndex (final_state
     (main (chain (spike 0 2 1) healthy 8063) [chain (spike 0 2 1) healthy 8065]))) 2 = 1 \<and>
   count_of (blockIndex (final_state (main (chain (spike 0 2 1) healthy 8065) []))) 2 = 0"
proof -
  let ?n0 = "chain (spike 0 2 1) healthy 8063"
  let ?n1 = "chain (spike 0 2 1) healthy 8065"
  let ?s0 = "initial_scan ?n0 BLOCK_BIP9_INTERVAL 8063"
  let ?s1 = "final_state (advance ?n1 BLOCK_BIP9_INTERVAL 8065 ?s0)"
  have e: "advance ?n1 BLOCK_BIP9_INTERVAL 8065 ?s0 = Continue ?s1"
    by (rule advance_healthy)
  have m: "main ?n0 [?n1] = Continue ?s1"
    using e by (simp add: main_one_poll poll_chain)
  have c: "count_of (blockIndex ?s1) 2 = 1"
    using advance_Continue(2) [OF e, of 2]
    by (simp add: initial_scan_currentHeight initial_scan_count tally_spike
        BLOCK_BIP9_INTERVAL_def)
  have a: "added_heights (trace ?s1) = [8065, 8064]"
    using advance_trace_heights(2) [OF e]
    by (simp add: initial_scan_heights initial_scan_currentHeight)
  have r: "removed_heights (trace ?s1) = [1, 2]"
    using advance_trace_heights(3) [OF e]
    by (simp add: initial_scan_heights initial_scan_currentHeight BLOCK_BIP9_INTERVAL_def
        upto_rec1)
  have f: "count_of (blockIndex (final_state (main ?n1 []))) 2 = 0"
    by (simp add: main_start initial_scan_count tally_spike BLOCK_BIP9_INTERVAL_def)
  show ?thesis
    using c a r f by (simp add: m)
qed

section \<open>Claims about the sign of the counts\<close>

text \<open>
  C3 on the code: the program starts at height 8063 on a chain whose block at height 2 has
  version 2 and whose other blocks have version 1. The first poll reports height 8065 and
  removes the heights 1 and 2; the second poll reports height 8066 and removes height 2
  again. Both polls succeed, and the count of version 2 ends at -1.
\<close>

theorem count_goes_negative_after_two_polls:
  "succeeded (main (chain (spike 2 2 1) healthy 8063)
     [chain (spike 2 2 1) healthy 8065, chain (spike 2 2 1) healthy 8066]) \<and>
   count_of (blockIndex (final_state (main (chain (spike 2 2 1) healthy 8063)
     [chain (spike 2 2 1) healthy 8065, chain (spike 2 2 1) healthy 8066]))) 2 = - 1 \<and>
   blockIndex (final_state (main (chain (spike 2 2 1) healthy 8063)
     [chain (spike 2 2 1) healthy 8065, chain (spike 2 2 1) healthy 8066])) 2 = Some (- 1)"
proof -
  let ?n0 = "chain (spike 2 2 1) healthy 8063"
  let ?n1 = "chain (spike 2 2 1) healthy 8065"
  let ?n2 = "chain (spike 2 2 1) healthy 8066"
  let ?s0 = "initial_scan ?n0 BLOCK_BIP9_INTERVAL 8063"
  let ?s1 = "final_state (advance ?n1 BLOCK_BIP9_INTERVAL 8065 ?s0)"
  let ?s2 = "final_state (advance ?n2 BLOCK_BIP9_INTERVAL 8066 ?s1)"
  have e1: "advance ?n1 BLOCK_BIP9_INTERVAL 8065 ?s0 = Continue ?s1"
    by (rule advance_healthy)
  have e2: "advance ?n2 BLOCK_BIP9_INTERVAL 8066 ?s1 = Continue ?s2"
    by (rule advance_healthy)
  have m: "main ?n0 [?n1, ?n2] = Continue ?s2"
    using e2 by (simp add: main_def run_def startup_chain poll_loop_two poll_chain
        del: poll_loop.simps)
  have c1: "count_of (blockIndex ?s1) 2 = 0"
    using advance_Continue(2) [OF e1, of 2]
    by (simp add: initial_scan_currentHeight initial_scan_count tally_spike
        BLOCK_BIP9_INTERVAL_def)
  have h1: "currentHeight ?s1 = 8065"
    using advance_Continue(1) [OF e1] .
  have c2: "count_of (blockIndex ?s2) 2 = - 1"
    using advance_Continue(2) [OF e2, of 2] unfolding h1 c1
    by (simp add: tally_spike BLOCK_BIP9_INTERVAL_def)
  have d: "2 \<in> dom (blockIndex ?s2)"
  proof (rule ccontr)
    assume "2 \<notin> dom (blockIndex ?s2)"
    then have "count_of (blockIndex ?s2) 2 = 0"
      by (rule count_of_absent)
    then show False
      by (simp only: c2)
  qed
  have v: "blockIndex ?s2 2 = Some (- 1)"
    using c2 d by (auto simp: count_of_def)
  show ?thesis
    using c2 v by (simp add: m)
qed

section \<open>Claims about a poll that rotates the whole window\<close>

lemma tally_filter:
  "tally nd lo hi v = int (length (filter (\<lambda>h. fst (GetBlockCollated nd h) = v) [lo..hi]))"
proof -
  have l: "(\<Sum>h\<leftarrow>hs. if fst (GetBlockCollated nd h) = v then 1 else 0) =
      int (length (filter (\<lambda>h. fst (GetBlockCollated nd h) = v) hs))" for hs :: "int list"
    by (induction hs) simp_all
  have "tally nd lo hi v =
      (\<Sum>h\<in>set [lo..hi]. if fst (GetBlockCollated nd h) = v then 1 else 0)"
    by (simp add: tally_def)
  also have "\<dots> = (\<Sum>h\<leftarrow>[lo..hi]. if fst (GetBlockCollated nd h) = v then 1 else 0)"
    by (rule sum.distinct_set_conv_list) simp
  finally show ?thesis
    by (simp only: l)
qed

text \<open>
  C5, as the code has it. A successful poll whose height difference is at least the
  window size does not scan the window again and does not start from an empty histogram:
  like every other poll it adds the heights from the old height plus one to the new
  height, from the highest down, and removes as many heights as it added. Every count is
  its old value, plus the number of added heights that carry the version, minus the number
  of removed heights that carry it. The poll sets the current height to the new height and
  leaves the sum of the counts as it was.
\<close>

theorem advance_full_rotation_is_incremental:
  assumes "interval \<le> newHeight - currentHeight s"
    and "advance nd interval newHeight s = Continue s'"
    and "finite (dom (blockIndex s))"
  shows "currentHeight s' = newHeight \<and>
         scanned_heights (trace s') = scanned_heights (trace s) \<and>
         added_heights (trace s') =
           added_heights (trace s) @ rev [currentHeight s + 1..newHeight] \<and>
         (\<exists>removed.
            length removed = nat (newHeight - currentHeight s) \<and>
            removed_heights (trace s') = removed_heights (trace s) @ removed \<and>
            (\<forall>v. count_of (blockIndex s') v =
               count_of (blockIndex s) v
               + int (length (filter (\<lambda>h. fst (GetBlockCollated nd h) = v)
                   [currentHeight s + 1..newHeight]))
               - int (length (filter (\<lambda>h. fst (GetBlockCollated nd h) = v) removed)))) \<and>
         totalBlocks (blockIndex s') = totalBlocks (blockIndex s)"
proof -
  let ?rs = "[newHeight - interval..newHeight - interval + (newHeight - currentHeight s) - 1]"
  have l: "length ?rs = nat (newHeight - currentHeight s)"
    by simp
  have r: "removed_heights (trace s') = removed_heights (trace s) @ ?rs"
    using assms(2) by (rule advance_trace_heights(3))
  have c: "\<forall>v. count_of (blockIndex s') v =
      count_of (blockIndex s) v
      + int (length (filter (\<lambda>h. fst (GetBlockCollated nd h) = v)
          [currentHeight s + 1..newHeight]))
      - int (length (filter (\<lambda>h. fst (GetBlockCollated nd h) = v) ?rs))"
    using advance_Continue(2) [OF assms(2)] by (simp only: tally_filter) simp
  have ex: "\<exists>removed.
      length removed = nat (newHeight - currentHeight s) \<and>
      removed_heights (trace s') = removed_heights (trace s) @ removed \<and>
      (\<forall>v. count_of (blockIndex s') v =
         count_of (blockIndex s) v
         + int (length (filter (\<lambda>h. fst (GetBlockCollated nd h) = v)
             [currentHeight s + 1..newHeight]))
         - int (length (filter (\<lambda>h. fst (GetBlockCollated nd h) = v) removed)))"
    using l r c by (intro exI [of _ ?rs] conjI)
  have h: "currentHeight s' = newHeight"
    using assms(2) by (rule advance_Continue(1))
  have sc: "scanned_heights (trace s') = scanned_heights (trace s)"
    using assms(2) by (rule advance_trace_heights(1))
  have ad: "added_heights (trace s') =
      added_heights (trace s) @ rev [currentHeight s + 1..newHeight]"
    using assms(2) by (rule advance_trace_heights(2))
  have t: "totalBlocks (blockIndex s') = totalBlocks (blockIndex s)"
    using assms(2,3) by (rule advance_Continue(4))
  show ?thesis
    using h sc ad ex t by (intro conjI)
qed

theorem advance_full_rotation_is_incremental_witness:
  "(4::int) \<le> 18 - currentHeight (initial_scan (chain scenario_version healthy 13) 4 13) \<and>
   advance (chain scenario_version healthy 18) 4 18
       (initial_scan (chain scenario_version healthy 13) 4 13) =
     Continue (final_state (advance (chain scenario_version healthy 18) 4 18
       (initial_scan (chain scenario_version healthy 13) 4 13))) \<and>
   finite (dom (blockIndex (initial_scan (chain scenario_version healthy 13) 4 13))) \<and>
   currentHeight (final_state (advance (chain scenario_version healthy 18) 4 18
       (initial_scan (chain scenario_version healthy 13) 4 13))) = 18 \<and>
   scanned_heights (trace (final_state (advance (chain scenario_version healthy 18) 4 18
       (initial_scan (chain scenario_version healthy 13) 4 13)))) = [10, 11, 12, 13] \<and>
   added_heights (trace (final_state (advance (chain scenario_version healthy 18) 4 18
       (initial_scan (chain scenario_version healthy 13) 4 13)))) = [18, 17, 16, 15, 14] \<and>
   (\<exists>removed.
      length removed = 5 \<and>
      removed_heights (trace (final_state (advance (chain scenario_version healthy 18) 4 18
        (initial_scan (chain scenario_version healthy 13) 4 13)))) = removed \<and>
      count_of (blockIndex (final_state (advance (chain scenario_version healthy 18) 4 18
        (initial_scan (chain scenario_version healthy 13) 4 13)))) 2 =
      count_of (blockIndex (initial_scan (chain scenario_version healthy 13) 4 13)) 2 + 2
      - int (length (filter (\<lambda>h. scenario_version h = 2) removed))) \<and>
   count_of (blockIndex (initial_scan (chain scenario_version healthy 13) 4 13)) 2 = 1 \<and>
   totalBlocks (blockIndex (final_state (advance (chain scenario_version healthy 18) 4 18
       (initial_scan (chain scenario_version healthy 13) 4 13)))) = 4"
proof -
  let ?s = "initial_scan (chain scenario_version healthy 13) 4 13"
  let ?nd = "chain scenario_version healthy 18"
  let ?s' = "final_state (advance ?nd 4 18 ?s)"
  have a: "(4::int) \<le> 18 - currentHeight ?s"
    by (simp add: initial_scan_currentHeight)
  have b: "advance ?nd 4 18 ?s = Continue ?s'"
    by (rule advance_healthy)
  have c: "finite (dom (blockIndex ?s))"
    by (rule initial_scan_finite)
  have d: "[currentHeight ?s + 1..18] = [14, 15, 16, 17, 18]"
    by (simp add: initial_scan_currentHeight upto_rec1)
  have f: "totalBlocks (blockIndex ?s) = 4"
    by (simp add: initial_scan_total)
  have g: "scanned_heights (trace ?s) = [10, 11, 12, 13]"
    by (simp add: initial_scan_heights upto_rec1)
  have h: "nat (18 - currentHeight ?s) = 5"
    by (simp add: initial_scan_currentHeight)
  have v: "fst (GetBlockCollated ?nd x) = scenario_version x" for x
    by (simp add: GetBlockCollated_chain healthy_def)
  have n: "int (length (filter (\<lambda>h. scenario_version h = 2) [14, 15, 16, 17, 18])) = 2"
    by (simp add: scenario_version_def)
  have k: "count_of (blockIndex ?s) 2 = 1"
    by (simp add: run_simps)
  from advance_full_rotation_is_incremental [OF a b c]
  have m: "currentHeight ?s' = 18"
    and sc: "scanned_heights (trace ?s') = scanned_heights (trace ?s)"
    and ad: "added_heights (trace ?s') = added_heights (trace ?s) @ rev [currentHeight ?s + 1..18]"
    and ex: "\<exists>removed.
      length removed = nat (18 - currentHeight ?s) \<and>
      removed_heights (trace ?s') = removed_heights (trace ?s) @ removed \<and>
      (\<forall>v. count_of (blockIndex ?s') v =
         count_of (blockIndex ?s) v
         + int (length (filter (\<lambda>h. fst (GetBlockCollated ?nd h) = v)
             [currentHeight ?s + 1..18]))
         - int (length (filter (\<lambda>h. fst (GetBlockCollated ?nd h) = v) removed)))"
    and t: "totalBlocks (blockIndex ?s') = totalBlocks (blockIndex ?s)"
    by blast+
  from ex obtain removed where
    r1: "length removed = nat (18 - currentHeight ?s)"
    and r2: "removed_heights (trace ?s') = removed_heights (trace ?s) @ removed"
    and r3: "count_of (blockIndex ?s') 2 =
         count_of (blockIndex ?s) 2
         + int (length (filter (\<lambda>h. fst (GetBlockCollated ?nd h) = 2)
             [currentHeight ?s + 1..18]))
         - int (length (filter (\<lambda>h. fst (GetBlockCollated ?nd h) = 2) removed))"
    by blast
  have e1: "length removed = 5"
    using r1 by (simp only: h)
  have e2: "removed_heights (trace ?s') = removed"
    using r2 by (simp only: initial_scan_heights append_Nil)
  have e3: "count_of (blockIndex ?s') 2 =
      count_of (blockIndex ?s) 2 + 2
      - int (length (filter (\<lambda>h. scenario_version h = 2) removed))"
    using r3 by (simp only: v d n)
  have ex': "\<exists>removed.
      length removed = 5 \<and>
      removed_heights (trace ?s') = removed \<and>
      count_of (blockIndex ?s') 2 =
      count_of (blockIndex ?s) 2 + 2
      - int (length (filter (\<lambda>h. scenario_version h = 2) removed))"
    using e1 e2 e3 by (intro exI [of _ removed] conjI)
  have sc': "scanned_heights (trace ?s') = [10, 11, 12, 13]"
    using sc by (simp only: g)
  have ad': "added_heights (trace ?s') = [18, 17, 16, 15, 14]"
    using ad by (simp only: d initial_scan_heights append_Nil) simp
  have t': "totalBlocks (blockIndex ?s') = 4"
    using t by (simp only: f)
  show ?thesis
    using a b c m sc' ad' ex' k t' by (intro conjI)
qed

text \<open>
  C5, as the specification has it, fails: the program starts at height 8063 on a chain
  whose block at height 0 has version 2 and whose other blocks have version 1, and the next
  poll reports height 16127, a difference of exactly the window size. The poll scans
  nothing: it adds the 8064 new heights and removes 8064 heights, and the block of version
  2 at height 0 stays counted, while a fresh scan at height 16127 counts none.
\<close>

theorem advance_full_rotation_counterexample:
  "succeeded (main (chain (spike 0 2 1) healthy 8063) [chain (spike 0 2 1) healthy 16127]) \<and>
   scanned_heights (trace (final_state
     (main (chain (spike 0 2 1) healthy 8063) [chain (spike 0 2 1) healthy 16127]))) =
   scanned_heights (trace (final_state (main (chain (spike 0 2 1) healthy 8063) []))) \<and>
   length (added_heights (trace (final_state
     (main (chain (spike 0 2 1) healthy 8063) [chain (spike 0 2 1) healthy 16127])))) = 8064 \<and>
   count_of (blockIndex (final_state
     (main (chain (spike 0 2 1) healthy 8063) [chain (spike 0 2 1) healthy 16127]))) 2 = 1 \<and>
   count_of (blockIndex (final_state (main (chain (spike 0 2 1) healthy 16127) []))) 2 = 0"
proof -
  let ?n0 = "chain (spike 0 2 1) healthy 8063"
  let ?n1 = "chain (spike 0 2 1) healthy 16127"
  let ?s0 = "initial_scan ?n0 BLOCK_BIP9_INTERVAL 8063"
  let ?s1 = "final_state (advance ?n1 BLOCK_BIP9_INTERVAL 16127 ?s0)"
  have e: "advance ?n1 BLOCK_BIP9_INTERVAL 16127 ?s0 = Continue ?s1"
    by (rule advance_healthy)
  have m: "main ?n0 [?n1] = Continue ?s1"
    using e by (simp add: main_one_poll poll_chain)
  have c: "count_of (blockIndex ?s1) 2 = 1"
    using advance_Continue(2) [OF e, of 2]
    by (simp add: initial_scan_currentHeight initial_scan_count tally_spike
        BLOCK_BIP9_INTERVAL_def)
  have sc: "scanned_heights (trace ?s1) = scanned_heights (trace ?s0)"
    using e by (rule advance_trace_heights(1))
  have "length (added_heights (trace ?s1)) = length (rev [currentHeight ?s0 + 1..16127])"
    by (simp only: advance_trace_heights(2) [OF e] initial_scan_heights append_Nil)
  then have a: "length (added_heights (trace ?s1)) = 8064"
    by (simp add: initial_scan_currentHeight del: upto_rec_numeral)
  have f: "count_of (blockIndex (final_state (main ?n1 []))) 2 = 0"
    by (simp add: main_start initial_scan_count tally_spike BLOCK_BIP9_INTERVAL_def)
  show ?thesis
    using c sc a f by (simp add: m main_start)
qed

end
